theory Spec2Isabelle
  imports Main "HOL-Library.Word"
begin

unbundle bit_operations_syntax

section \<open>The triangle peg game of \<^verbatim>\<open>tri_solitaire.c\<close>\<close>

text \<open>
  The program explores every sequence of jumps of the 15-hole triangle peg game. A board
  is a 9 by 13 array of C \<^verbatim>\<open>int\<close> cells holding bit flags; boards are allocated
  with \<^verbatim>\<open>calloc\<close>, linked by \<^verbatim>\<open>prev\<close>, \<^verbatim>\<open>next\<close> and \<^verbatim>\<open>nextwin\<close>
  pointers and never freed. The model keeps the cells as 32-bit words, the boards in a
  store addressed by allocation order, and the four globals in a state record. Every
  array access of the search is checked: an access outside the array is a fault value
  of the model, where the C program has undefined behaviour.
\<close>

subsection \<open>Constants\<close>

type_synonym cell = "32 word"

definition NUM_ROWS :: int where "NUM_ROWS = 9"
definition NUM_COLS :: int where "NUM_COLS = 13"
definition MAX_BOARDS :: nat where "MAX_BOARDS = 14"

definition POS_EMPTY :: cell where "POS_EMPTY = 0x00"
definition POS_FULL :: cell where "POS_FULL = 0x01"
definition POS_INVALID :: cell where "POS_INVALID = 0x02"
definition POS_LAST :: cell where "POS_LAST = 0x10"

definition NUM_OFFSETS :: nat where "NUM_OFFSETS = 6"

definition rowoffsets :: "int list" where
  "rowoffsets = [-1, -1, 1, 1, 0, 0]"

definition coloffsets :: "int list" where
  "coloffsets = [-1, 1, -1, 1, -2, 2]"

subsection \<open>Grids and checked array access\<close>

text \<open>
  \<^verbatim>\<open>int squares[NUM_ROWS][NUM_COLS]\<close>: a list of rows. The C type fixes the
  dimensions; here \<open>wf_grid\<close> states them.
\<close>

type_synonym grid = "cell list list"

definition wf_grid :: "grid \<Rightarrow> bool" where
  "wf_grid g = (length g = nat NUM_ROWS \<and> list_all (\<lambda>row. length row = nat NUM_COLS) g)"

datatype fault =
    OutOfBounds      \<comment> \<open>an index outside \<^verbatim>\<open>squares[9][13]\<close>\<close>
  | ChildOverflow    \<comment> \<open>a write to \<^verbatim>\<open>next[new_board_num]\<close> with \<^verbatim>\<open>new_board_num >= MAX_BOARDS\<close>\<close>
  | BadPointer       \<comment> \<open>a dereference of \<^verbatim>\<open>NULL\<close> or of an address never allocated\<close>
  | DepthExceeded    \<comment> \<open>the recursion went deeper than the bound given to the model\<close>
  | OutOfFuel        \<comment> \<open>a \<^verbatim>\<open>while\<close> loop ran longer than the bound given to the model\<close>

definition in_bounds :: "int \<Rightarrow> int \<Rightarrow> bool" where
  "in_bounds r c = (0 \<le> r \<and> r < NUM_ROWS \<and> 0 \<le> c \<and> c < NUM_COLS)"

definition sq :: "grid \<Rightarrow> int \<Rightarrow> int \<Rightarrow> cell" where
  \<comment> \<open>\<^verbatim>\<open>squares[r][c]\<close> for indices inside the array\<close>
  "sq g r c = g ! nat r ! nat c"

definition sq_get :: "grid \<Rightarrow> int \<Rightarrow> int \<Rightarrow> fault + cell" where
  "sq_get g r c = (if in_bounds r c then Inr (sq g r c) else Inl OutOfBounds)"

definition sq_set :: "grid \<Rightarrow> int \<Rightarrow> int \<Rightarrow> cell \<Rightarrow> fault + grid" where
  "sq_set g r c v =
     (if in_bounds r c then Inr (g[nat r := (g ! nat r)[nat c := v]]) else Inl OutOfBounds)"

text \<open>Sequencing of steps that may fault: the first fault ends the run.\<close>

definition bind_res :: "fault + 'a \<Rightarrow> ('a \<Rightarrow> fault + 'b) \<Rightarrow> fault + 'b" where
  "bind_res m f = (case m of Inl e \<Rightarrow> Inl e | Inr x \<Rightarrow> f x)"

text \<open>
  A C \<^verbatim>\<open>for\<close> loop over a fixed range of indices, threading the loop's variables
  \<open>a\<close> through the body.
\<close>

fun for_loop :: "'i list \<Rightarrow> ('i \<Rightarrow> 'a \<Rightarrow> fault + 'a) \<Rightarrow> 'a \<Rightarrow> fault + 'a" where
  "for_loop [] body a = Inr a"
| "for_loop (i # is) body a = bind_res (body i a) (for_loop is body)"

definition rows :: "int list" where
  "rows = map int [0..<nat NUM_ROWS]"

definition cols :: "int list" where
  "cols = map int [0..<nat NUM_COLS]"

definition offnums :: "nat list" where
  "offnums = [0..<NUM_OFFSETS]"

subsection \<open>\<^verbatim>\<open>count_pegs\<close> and \<^verbatim>\<open>clear_last\<close>\<close>

definition is_full :: "cell \<Rightarrow> bool" where
  \<comment> \<open>the test \<^verbatim>\<open>squares[row][col] & POS_FULL\<close>\<close>
  "is_full v = (v AND POS_FULL \<noteq> 0)"

text \<open>
  The two loops of \<^verbatim>\<open>count_pegs\<close> and of \<^verbatim>\<open>clear_last\<close> run over all rows and
  all columns of the array, so over every cell of a grid of the declared dimensions.
\<close>

definition count_row :: "cell list \<Rightarrow> int" where
  "count_row row = sum_list (map (\<lambda>v. if is_full v then 1 else 0) row)"

definition count_pegs :: "grid \<Rightarrow> int" where
  "count_pegs g = sum_list (map count_row g)"

definition clear_last :: "grid \<Rightarrow> grid" where
  "clear_last g = map (map (\<lambda>v. v AND NOT POS_LAST)) g"

subsection \<open>One jump\<close>

text \<open>
  The test of line 221, with C's short-circuit \<^verbatim>\<open>&&\<close>: the landing cell is read only
  when the adjacent cell holds a peg.
\<close>

definition jump_test :: "grid \<Rightarrow> int \<Rightarrow> int \<Rightarrow> nat \<Rightarrow> fault + bool" where
  "jump_test g row col offnum =
     (let roff = rowoffsets ! offnum; coff = coloffsets ! offnum in
      bind_res (sq_get g (row + roff) (col + coff)) (\<lambda>adj.
        if is_full adj
        then bind_res (sq_get g (row + 2 * roff) (col + 2 * coff)) (\<lambda>landing.
               Inr (landing = POS_EMPTY))
        else Inr False))"

text \<open>
  Lines 225 to 229 on the squares of the new board: the copy of the parent's squares,
  \<^verbatim>\<open>clear_last\<close>, and the three assignments.
\<close>

definition jump_squares :: "grid \<Rightarrow> int \<Rightarrow> int \<Rightarrow> nat \<Rightarrow> fault + grid" where
  "jump_squares g row col offnum =
     (let roff = rowoffsets ! offnum; coff = coloffsets ! offnum in
      bind_res (sq_set (clear_last g) row col POS_EMPTY) (\<lambda>g1.
      bind_res (sq_set g1 (row + roff) (col + coff) POS_EMPTY) (\<lambda>g2.
      sq_set g2 (row + 2 * roff) (col + 2 * coff) (POS_FULL OR POS_LAST))))"

subsection \<open>Boards, the store and the globals\<close>

text \<open>
  \<^verbatim>\<open>struct board\<close>. A pointer is \<open>None\<close> for \<^verbatim>\<open>NULL\<close> or the address of a board
  in the store. The field \<^verbatim>\<open>next\<close> is called \<open>nextb\<close> here.
\<close>

type_synonym addr = nat

record board =
  squares :: grid
  nextb :: "addr option list"
  prev :: "addr option"
  nextwin :: "addr option"
  boardnum :: int

text \<open>
  The globals \<^verbatim>\<open>total_boards\<close>, \<^verbatim>\<open>total_winning_boards\<close>, \<^verbatim>\<open>depth\<close> and
  \<^verbatim>\<open>winning_board\<close>, with the store of all boards. Address 0 is the root board of
  \<^verbatim>\<open>main\<close>; \<^verbatim>\<open>calloc\<close> returns the next unused address. The counters are
  unbounded integers: the search of the 15-hole triangle visits a few hundred thousand
  boards, far below the range of a C \<^verbatim>\<open>int\<close>.
  The flags \<^verbatim>\<open>debug\<close> and \<^verbatim>\<open>visual\<close> only select what is printed and are left
  out, with the printing inside \<^verbatim>\<open>generate_boards\<close>.
\<close>

record state =
  heap :: "board list"
  total_boards :: int
  total_winning_boards :: int
  depth :: int
  winning_board :: "addr option"

definition calloc_board :: board where
  \<comment> \<open>\<^verbatim>\<open>calloc(1, sizeof(struct board))\<close>: all cells 0, all pointers \<^verbatim>\<open>NULL\<close>\<close>
  "calloc_board =
     \<lparr>squares = replicate (nat NUM_ROWS) (replicate (nat NUM_COLS) 0),
      nextb = replicate MAX_BOARDS None, prev = None, nextwin = None, boardnum = 0\<rparr>"

subsection \<open>\<^verbatim>\<open>generate_boards\<close>\<close>

text \<open>Lines 188 to 210: the board's number, the depth, and the record of a win.\<close>

definition enter_board :: "state \<Rightarrow> addr \<Rightarrow> state" where
  "enter_board s b =
     (let count = count_pegs (squares (heap s ! b));
          s1 = s\<lparr>heap := (heap s)[b := (heap s ! b)\<lparr>boardnum := total_boards s\<rparr>]\<rparr>;
          s2 = s1\<lparr>depth := depth s1 + 1\<rparr>
      in if count = 1
         then s2\<lparr>winning_board :=
                    (if winning_board s2 = None then Some b else winning_board s2),
                  total_winning_boards := total_winning_boards s2 + 1\<rparr>
         else s2)"

text \<open>
  Lines 219 to 235, the body of the loop over \<^verbatim>\<open>offnum\<close>. The loop's variables are
  the state and \<^verbatim>\<open>new_board_num\<close>; \<open>rec\<close> is the recursive call.
\<close>

definition try_jump ::
  "(state \<Rightarrow> addr \<Rightarrow> fault + state \<times> bool) \<Rightarrow> addr \<Rightarrow> int \<Rightarrow> int \<Rightarrow> nat \<Rightarrow>
   state \<times> nat \<Rightarrow> fault + state \<times> nat" where
  "try_jump rec b row col offnum = (\<lambda>(s, new_board_num).
     bind_res (jump_test (squares (heap s ! b)) row col offnum) (\<lambda>ok.
       if \<not> ok then Inr (s, new_board_num)
       else
         let newb = length (heap s);
             s1 = s\<lparr>heap := heap s @ [calloc_board], total_boards := total_boards s + 1\<rparr>
         in bind_res (jump_squares (squares (heap s1 ! b)) row col offnum) (\<lambda>g.
              let s2 = s1\<lparr>heap := (heap s1)[newb := (heap s1 ! newb)\<lparr>squares := g\<rparr>]\<rparr> in
              if MAX_BOARDS \<le> new_board_num then Inl ChildOverflow
              else
                let s3 = s2\<lparr>heap := (heap s2)[b := (heap s2 ! b)
                             \<lparr>nextb := (nextb (heap s2 ! b))[new_board_num := Some newb]\<rparr>]\<rparr>;
                    s4 = s3\<lparr>heap := (heap s3)[newb := (heap s3 ! newb)\<lparr>prev := Some b\<rparr>]\<rparr>
                in bind_res (rec s4 newb) (\<lambda>(s5, r). Inr (s5, new_board_num + 1)))))"

text \<open>Lines 213 to 237, the body of the loop over \<^verbatim>\<open>col\<close>.\<close>

definition col_body ::
  "(state \<Rightarrow> addr \<Rightarrow> fault + state \<times> bool) \<Rightarrow> addr \<Rightarrow> int \<Rightarrow> int \<Rightarrow>
   state \<times> nat \<Rightarrow> fault + state \<times> nat" where
  "col_body rec b row col = (\<lambda>(s, new_board_num).
     bind_res (sq_get (squares (heap s ! b)) row col) (\<lambda>v.
       if \<not> is_full v then Inr (s, new_board_num)
       else for_loop offnums (try_jump rec b row col) (s, new_board_num)))"

definition row_body ::
  "(state \<Rightarrow> addr \<Rightarrow> fault + state \<times> bool) \<Rightarrow> addr \<Rightarrow> int \<Rightarrow>
   state \<times> nat \<Rightarrow> fault + state \<times> nat" where
  "row_body rec b row = for_loop cols (col_body rec b row)"

definition gen_body ::
  "(state \<Rightarrow> addr \<Rightarrow> fault + state \<times> bool) \<Rightarrow> state \<Rightarrow> addr \<Rightarrow> fault + state \<times> bool" where
  "gen_body rec s b =
     (if length (heap s) \<le> b then Inl BadPointer
      else bind_res (for_loop rows (row_body rec b) (enter_board s b, 0))
             (\<lambda>(s', new_board_num). Inr (s'\<lparr>depth := depth s' - 1\<rparr>, new_board_num \<noteq> 0)))"

text \<open>
  The recursion, with a bound \<open>d\<close> on the number of calls nested below the outermost
  one: a call that would go deeper is the fault \<open>DepthExceeded\<close>.
\<close>

primrec generate_boards :: "nat \<Rightarrow> state \<Rightarrow> addr \<Rightarrow> fault + state \<times> bool" where
  "generate_boards 0 = gen_body (\<lambda>s b. Inl DepthExceeded)"
| "generate_boards (Suc d) = gen_body (generate_boards d)"

subsection \<open>The starting layouts and \<^verbatim>\<open>main\<close>\<close>

text \<open>The macros \<^verbatim>\<open>X\<close>, \<^verbatim>\<open>O\<close> and \<^verbatim>\<open>_\<close> of the source.\<close>

abbreviation (input) "cX \<equiv> POS_FULL"
abbreviation (input) "cO \<equiv> POS_EMPTY"
abbreviation (input) "cI \<equiv> POS_INVALID"

definition initial_board_1 :: grid where
  "initial_board_1 =
    [[cI, cI, cI, cI, cI, cI, cI, cI, cI, cI, cI, cI, cI],
     [cI, cI, cI, cI, cI, cI, cI, cI, cI, cI, cI, cI, cI],
     [cI, cI, cI, cI, cI, cI, cX, cI, cI, cI, cI, cI, cI],
     [cI, cI, cI, cI, cI, cX, cI, cX, cI, cI, cI, cI, cI],
     [cI, cI, cI, cI, cX, cI, cO, cI, cX, cI, cI, cI, cI],
     [cI, cI, cI, cX, cI, cX, cI, cX, cI, cX, cI, cI, cI],
     [cI, cI, cX, cI, cX, cI, cX, cI, cX, cI, cX, cI, cI],
     [cI, cI, cI, cI, cI, cI, cI, cI, cI, cI, cI, cI, cI],
     [cI, cI, cI, cI, cI, cI, cI, cI, cI, cI, cI, cI, cI]]"

definition initial_board_2 :: grid where
  "initial_board_2 =
    [[cI, cI, cI, cI, cI, cI, cI, cI, cI, cI, cI, cI, cI],
     [cI, cI, cI, cI, cI, cI, cI, cI, cI, cI, cI, cI, cI],
     [cI, cI, cI, cI, cI, cI, cO, cI, cI, cI, cI, cI, cI],
     [cI, cI, cI, cI, cI, cX, cI, cX, cI, cI, cI, cI, cI],
     [cI, cI, cI, cI, cX, cI, cX, cI, cX, cI, cI, cI, cI],
     [cI, cI, cI, cX, cI, cX, cI, cX, cI, cX, cI, cI, cI],
     [cI, cI, cX, cI, cX, cI, cX, cI, cX, cI, cX, cI, cI],
     [cI, cI, cI, cI, cI, cI, cI, cI, cI, cI, cI, cI, cI],
     [cI, cI, cI, cI, cI, cI, cI, cI, cI, cI, cI, cI, cI]]"

definition initial_board_3 :: grid where
  "initial_board_3 =
    [[cI, cI, cI, cI, cI, cI, cI, cI, cI, cI, cI, cI, cI],
     [cI, cI, cI, cI, cI, cI, cI, cI, cI, cI, cI, cI, cI],
     [cI, cI, cI, cI, cI, cI, cX, cI, cI, cI, cI, cI, cI],
     [cI, cI, cI, cI, cI, cO, cI, cX, cI, cI, cI, cI, cI],
     [cI, cI, cI, cI, cX, cI, cX, cI, cX, cI, cI, cI, cI],
     [cI, cI, cI, cX, cI, cX, cI, cX, cI, cX, cI, cI, cI],
     [cI, cI, cX, cI, cX, cI, cX, cI, cX, cI, cX, cI, cI],
     [cI, cI, cI, cI, cI, cI, cI, cI, cI, cI, cI, cI, cI],
     [cI, cI, cI, cI, cI, cI, cI, cI, cI, cI, cI, cI, cI]]"

definition initial_board_4 :: grid where
  "initial_board_4 =
    [[cI, cI, cI, cI, cI, cI, cI, cI, cI, cI, cI, cI, cI],
     [cI, cI, cI, cI, cI, cI, cI, cI, cI, cI, cI, cI, cI],
     [cI, cI, cI, cI, cI, cI, cX, cI, cI, cI, cI, cI, cI],
     [cI, cI, cI, cI, cI, cX, cI, cX, cI, cI, cI, cI, cI],
     [cI, cI, cI, cI, cO, cI, cX, cI, cX, cI, cI, cI, cI],
     [cI, cI, cI, cX, cI, cX, cI, cX, cI, cX, cI, cI, cI],
     [cI, cI, cX, cI, cX, cI, cX, cI, cX, cI, cX, cI, cI],
     [cI, cI, cI, cI, cI, cI, cI, cI, cI, cI, cI, cI, cI],
     [cI, cI, cI, cI, cI, cI, cI, cI, cI, cI, cI, cI, cI]]"

definition root_board :: "grid \<Rightarrow> board" where
  \<comment> \<open>the initialiser \<^verbatim>\<open>{ {...}, { NULL }, NULL, 0 }\<close>\<close>
  "root_board g =
     \<lparr>squares = g, nextb = replicate MAX_BOARDS None, prev = None, nextwin = None,
      boardnum = 0\<rparr>"

definition init_state :: "grid \<Rightarrow> state" where
  "init_state g =
     \<lparr>heap = [root_board g], total_boards = 1, total_winning_boards = 0, depth = 0,
      winning_board = None\<rparr>"

text \<open>
  The first \<^verbatim>\<open>while\<close> loop of \<^verbatim>\<open>main\<close> (lines 332 to 335): from the winning board
  up the \<^verbatim>\<open>prev\<close> links, setting \<^verbatim>\<open>nextwin\<close> of each parent. It returns the
  store and the board it stops at. The bound \<open>n\<close> counts evaluations of the loop's
  condition.
\<close>

fun link_back :: "nat \<Rightarrow> board list \<Rightarrow> addr \<Rightarrow> fault + board list \<times> addr" where
  "link_back 0 h b = Inl OutOfFuel"
| "link_back (Suc n) h b =
     (if length h \<le> b then Inl BadPointer
      else case prev (h ! b) of
             None \<Rightarrow> Inr (h, b)
           | Some p \<Rightarrow>
               if length h \<le> p then Inl BadPointer
               else link_back n (h[p := (h ! p)\<lparr>nextwin := Some b\<rparr>]) p)"

text \<open>
  The second loop (lines 336 to 339): down the \<^verbatim>\<open>nextwin\<close> links, printing each board.
  The output is the list of the boards printed, by address.
\<close>

fun walk_forward :: "nat \<Rightarrow> board list \<Rightarrow> addr option \<Rightarrow> addr list \<Rightarrow> fault + addr list" where
  "walk_forward 0 h b out = Inl OutOfFuel"
| "walk_forward (Suc n) h b out =
     (case b of
        None \<Rightarrow> Inr out
      | Some a \<Rightarrow>
          if length h \<le> a then Inl BadPointer
          else walk_forward n h (nextwin (h ! a)) (out @ [a]))"

text \<open>
  Lines 330 to 340: the path printed after the search, from the state the search left.
\<close>

definition print_path :: "nat \<Rightarrow> state \<Rightarrow> fault + board list \<times> addr list" where
  "print_path n s =
     (if total_winning_boards s > 0
      then case winning_board s of
             None \<Rightarrow> Inl BadPointer
           | Some w \<Rightarrow>
               bind_res (link_back n (heap s) w) (\<lambda>(h, b).
               bind_res (walk_forward n h (Some b) []) (\<lambda>out. Inr (h, out)))
      else Inr (heap s, []))"

text \<open>
  \<^verbatim>\<open>main\<close>: the search from \<^verbatim>\<open>initial_board_1\<close>, the number printed as
  \<^verbatim>\<open>Total boards\<close>, and the boards of the path printed.
\<close>

definition main :: "nat \<Rightarrow> nat \<Rightarrow> fault + int \<times> addr list" where
  "main d n =
     bind_res (generate_boards d (init_state initial_board_1) 0) (\<lambda>(s, r).
     bind_res (print_path n s) (\<lambda>(h, out). Inr (total_boards s, out)))"

section \<open>Notions used to state the properties\<close>

subsection \<open>Cell states\<close>

text \<open>
  The three states of a cell as the program tells them apart: a peg is the flag
  \<^verbatim>\<open>POS_FULL\<close> (the test \<^verbatim>\<open>& POS_FULL\<close>), an empty hole is the value
  \<^verbatim>\<open>POS_EMPTY\<close> (the test \<^verbatim>\<open>== POS_EMPTY\<close>), a cell outside the triangle is the
  value \<^verbatim>\<open>POS_INVALID\<close> of the initialisers. The marker of the last move is the
  flag \<^verbatim>\<open>POS_LAST\<close> (the test \<^verbatim>\<open>& POS_LAST\<close> of \<^verbatim>\<open>print_board\<close>).
\<close>

definition is_empty :: "cell \<Rightarrow> bool" where
  "is_empty v = (v = POS_EMPTY)"

definition is_invalid :: "cell \<Rightarrow> bool" where
  "is_invalid v = (v = POS_INVALID)"

definition has_last :: "cell \<Rightarrow> bool" where
  "has_last v = (v AND POS_LAST \<noteq> 0)"

text \<open>The number of cells satisfying \<open>P\<close>, and the number of cells with the marker.\<close>

definition count_cells :: "(cell \<Rightarrow> bool) \<Rightarrow> grid \<Rightarrow> int" where
  "count_cells P g = sum_list (map (\<lambda>row. sum_list (map (\<lambda>v. if P v then 1 else 0) row)) g)"

definition count_last :: "grid \<Rightarrow> int" where
  "count_last g = count_cells has_last g"

subsection \<open>Jumps the search generates\<close>

text \<open>
  The search reaches line 223 for \<open>(row, col, offnum)\<close> exactly when the loop indices are
  in their ranges, the cell holds a peg (line 214) and the test of line 221 is true.
\<close>

definition jump_legal :: "grid \<Rightarrow> int \<Rightarrow> int \<Rightarrow> nat \<Rightarrow> bool" where
  "jump_legal g row col offnum =
     (in_bounds row col \<and> offnum < NUM_OFFSETS \<and> is_full (sq g row col) \<and>
      jump_test g row col offnum = Inr True)"

text \<open>The direction opposite to \<open>offnum\<close> in \<^verbatim>\<open>rowoffsets\<close> and \<^verbatim>\<open>coloffsets\<close>.\<close>

definition opposite :: "nat \<Rightarrow> nat" where
  "opposite offnum = [3, 2, 1, 0, 5, 4] ! offnum"

text \<open>The boards the search can reach from a root board.\<close>

inductive reachable_from :: "grid \<Rightarrow> grid \<Rightarrow> bool" for g0 :: grid where
  root: "reachable_from g0 g0"
| jump: "reachable_from g0 g \<Longrightarrow> jump_legal g row col offnum \<Longrightarrow>
         jump_squares g row col offnum = Inr g' \<Longrightarrow> reachable_from g0 g'"

text \<open>
  The 15 holes of the triangle: the cells that are not \<^verbatim>\<open>POS_INVALID\<close> in
  \<^verbatim>\<open>initial_board_1\<close>. The four starting layouts have the same holes.
\<close>

definition hole :: "int \<Rightarrow> int \<Rightarrow> bool" where
  "hole r c = (in_bounds r c \<and> sq initial_board_1 r c \<noteq> POS_INVALID)"

text \<open>
  A board of the triangle: the cells outside the holes are \<^verbatim>\<open>POS_INVALID\<close>, and
  every hole is empty or holds a peg, with or without the marker.
\<close>

definition cell_ok :: "cell \<Rightarrow> cell \<Rightarrow> bool" where
  "cell_ok v0 v =
     (if v0 = POS_INVALID then v = POS_INVALID
      else v = POS_EMPTY \<or> v = POS_FULL \<or> v = (POS_FULL OR POS_LAST))"

definition tri_board :: "grid \<Rightarrow> bool" where
  "tri_board g = list_all2 (list_all2 cell_ok) initial_board_1 g"

text \<open>The number of jumps the three loops find on a grid, in the loops' order.\<close>

definition jumps_at :: "grid \<Rightarrow> int \<Rightarrow> int \<Rightarrow> nat list \<Rightarrow> nat" where
  "jumps_at g row col offs =
     sum_list (map (\<lambda>offnum. if jump_test g row col offnum = Inr True then 1 else 0) offs)"

definition jumps_in_row :: "grid \<Rightarrow> int \<Rightarrow> int list \<Rightarrow> nat" where
  "jumps_in_row g row cs =
     sum_list (map (\<lambda>col. if is_full (sq g row col) then jumps_at g row col offnums else 0) cs)"

definition jumps_in_rows :: "grid \<Rightarrow> int list \<Rightarrow> nat" where
  "jumps_in_rows g rs = sum_list (map (\<lambda>row. jumps_in_row g row cols) rs)"

definition count_jumps :: "grid \<Rightarrow> nat" where
  "count_jumps g = jumps_in_rows g rows"

text \<open>
  The same count on the pegs alone: \<open>P r c\<close> says that the cell \<open>(r, c)\<close> holds a peg.
  On a board of the triangle the two counts agree.
\<close>

definition njumps :: "(int \<Rightarrow> int \<Rightarrow> bool) \<Rightarrow> nat" where
  "njumps P =
     sum_list (map (\<lambda>row. sum_list (map (\<lambda>col.
       if P row col
       then sum_list (map (\<lambda>offnum.
              if P (row + rowoffsets ! offnum) (col + coloffsets ! offnum) \<and>
                 hole (row + 2 * rowoffsets ! offnum) (col + 2 * coloffsets ! offnum) \<and>
                 \<not> P (row + 2 * rowoffsets ! offnum) (col + 2 * coloffsets ! offnum)
              then 1 else 0) offnums)
       else 0) cols)) rows)"

text \<open>
  Jumps along a line of holes: \<open>jmp a b c\<close> is the jump from \<open>a\<close> over \<open>b\<close> to
  \<open>c\<close>; a line of three, four or five holes carries two, four or six of them.
\<close>

definition jmp :: "bool \<Rightarrow> bool \<Rightarrow> bool \<Rightarrow> nat" where
  "jmp a b c = (if a \<and> b \<and> \<not> c then 1 else 0)"

definition line3 :: "bool \<Rightarrow> bool \<Rightarrow> bool \<Rightarrow> nat" where
  "line3 a b c = jmp a b c + jmp c b a"

definition line4 :: "bool \<Rightarrow> bool \<Rightarrow> bool \<Rightarrow> bool \<Rightarrow> nat" where
  "line4 a b c d = line3 a b c + line3 b c d"

definition line5 :: "bool \<Rightarrow> bool \<Rightarrow> bool \<Rightarrow> bool \<Rightarrow> bool \<Rightarrow> nat" where
  "line5 a b c d e = line3 a b c + line3 b c d + line3 c d e"

subsection \<open>What a run of the search leaves behind\<close>

text \<open>
  A run ends with a value satisfying \<open>Q\<close> or with a fault satisfying \<open>E\<close>.
\<close>

definition outcome :: "fault + 'a \<Rightarrow> ('a \<Rightarrow> bool) \<Rightarrow> (fault \<Rightarrow> bool) \<Rightarrow> bool" where
  "outcome m Q E = (case m of Inr x \<Rightarrow> Q x | Inl e \<Rightarrow> E e)"

text \<open>
  The store only grows, and the squares and the \<^verbatim>\<open>prev\<close> and \<^verbatim>\<open>nextwin\<close> links of
  the boards already there stay as they are.
\<close>

definition frame :: "board list \<Rightarrow> board list \<Rightarrow> bool" where
  "frame h h' =
     (length h \<le> length h' \<and>
      (\<forall>a<length h. squares (h' ! a) = squares (h ! a) \<and> prev (h' ! a) = prev (h ! a) \<and>
         nextwin (h' ! a) = nextwin (h ! a)))"

text \<open>
  A board made by the search: its parent is an older board, and its squares are the
  parent's after one jump the search generates on the parent.
\<close>

definition child_ok :: "board list \<Rightarrow> addr \<Rightarrow> bool" where
  "child_ok h c =
     (\<exists>p row col offnum.
        prev (h ! c) = Some p \<and> p < c \<and> nextwin (h ! c) = None \<and>
        wf_grid (squares (h ! p)) \<and> jump_legal (squares (h ! p)) row col offnum \<and>
        jump_squares (squares (h ! p)) row col offnum = Inr (squares (h ! c)))"

definition won :: "board list \<Rightarrow> addr \<Rightarrow> bool" where
  "won h a = (count_pegs (squares (h ! a)) = 1)"

text \<open>
  The boards visited between two states, in the order of the visits: the boards \<open>vs\<close>
  and then the boards allocated in between. A board is visited as soon as it is allocated,
  so the order of the addresses is the order of discovery.
\<close>

definition visited :: "addr list \<Rightarrow> state \<Rightarrow> state \<Rightarrow> addr list" where
  "visited vs s s' = vs @ [length (heap s)..<length (heap s')]"

definition search_rel :: "addr list \<Rightarrow> state \<Rightarrow> state \<Rightarrow> bool" where
  "search_rel vs s s' =
     (frame (heap s) (heap s') \<and>
      (\<forall>c. length (heap s) \<le> c \<and> c < length (heap s') \<longrightarrow> child_ok (heap s') c) \<and>
      depth s' = depth s \<and>
      total_boards s' = total_boards s + int (length (heap s') - length (heap s)) \<and>
      winning_board s' =
        (case winning_board s of
           Some w \<Rightarrow> Some w
         | None \<Rightarrow> find (won (heap s')) (visited vs s s')) \<and>
      total_winning_boards s' =
        total_winning_boards s + int (length (filter (won (heap s')) (visited vs s s'))) \<and>
      (\<forall>a<length (heap s).
         boardnum (heap s' ! a) =
           (if a \<in> set vs then total_boards s else boardnum (heap s ! a))) \<and>
      (\<forall>c. length (heap s) \<le> c \<and> c < length (heap s') \<longrightarrow>
         boardnum (heap s' ! c) = total_boards s + int (c - length (heap s)) + 1))"

text \<open>
  The faults a call on a board with squares \<open>g\<close> may end with: the depth bound only when
  the board has more than \<open>k\<close> pegs, an access outside an array only when the board is not
  a board of the triangle.
\<close>

definition bad :: "nat \<Rightarrow> grid \<Rightarrow> fault \<Rightarrow> bool" where
  "bad k g e =
     ((e = DepthExceeded \<and> int k < count_pegs g) \<or>
      ((e = OutOfBounds \<or> e = ChildOverflow) \<and> \<not> tri_board g))"

definition search_spec :: "nat \<Rightarrow> (state \<Rightarrow> addr \<Rightarrow> fault + state \<times> bool) \<Rightarrow> bool" where
  "search_spec k rec =
     (\<forall>s c. c < length (heap s) \<longrightarrow> wf_grid (squares (heap s ! c)) \<longrightarrow>
        0 < count_pegs (squares (heap s ! c)) \<longrightarrow>
        outcome (rec s c) (\<lambda>(s', r). search_rel [c] s s') (bad k (squares (heap s ! c))))"

text \<open>The state at the recursive call of line 234, after lines 223 to 233.\<close>

definition alloc_child :: "state \<Rightarrow> addr \<Rightarrow> nat \<Rightarrow> grid \<Rightarrow> state" where
  "alloc_child s b n g' =
     s\<lparr>heap := (heap s)[b := (heap s ! b)
                 \<lparr>nextb := (nextb (heap s ! b))[n := Some (length (heap s))]\<rparr>] @
               [\<lparr>squares = g', nextb = replicate MAX_BOARDS None, prev = Some b,
                 nextwin = None, boardnum = 0\<rparr>],
       total_boards := total_boards s + 1\<rparr>"

text \<open>
  What the three loops of a call on the board \<open>b\<close> keep: \<open>s1\<close> is the state when the
  loops start and \<open>g\<close> the squares of \<open>b\<close>.
\<close>

definition loop_inv :: "state \<Rightarrow> addr \<Rightarrow> grid \<Rightarrow> state \<Rightarrow> bool" where
  "loop_inv s1 b g s =
     (b < length (heap s1) \<and> squares (heap s1 ! b) = g \<and> wf_grid g \<and> search_rel [] s1 s)"

subsection \<open>The children of a board\<close>

text \<open>
  The jumps the search generates on a grid, as \<open>(row, col, offnum)\<close> and in the order in
  which the three loops come to them.
\<close>

definition jumps_of :: "grid \<Rightarrow> (int \<times> int \<times> nat) list" where
  "jumps_of g =
     concat (map (\<lambda>row. concat (map (\<lambda>col. concat (map (\<lambda>offnum.
       if jump_legal g row col offnum then [(row, col, offnum)] else []) offnums)) cols)) rows)"

text \<open>
  The \<open>k\<close>-th child of the board \<open>b\<close> was made by the jump \<open>j\<close>: the entry \<open>k\<close> of
  \<^verbatim>\<open>b->next\<close> is a board allocated after the store \<open>h\<close>, its \<^verbatim>\<open>prev\<close> is \<open>b\<close> and
  its squares are those of \<open>b\<close> after the jump.
\<close>

definition nth_child :: "board list \<Rightarrow> board list \<Rightarrow> addr \<Rightarrow> nat \<Rightarrow> int \<times> int \<times> nat \<Rightarrow> bool" where
  "nth_child h h' b k j =
     (\<exists>c. nextb (h' ! b) ! k = Some c \<and> length h \<le> c \<and> c < length h' \<and>
        prev (h' ! c) = Some b \<and>
        jump_squares (squares (h ! b)) (fst j) (fst (snd j)) (snd (snd j)) =
          Inr (squares (h' ! c)))"

text \<open>
  What a call on the board \<open>b\<close> keeps of the boards already in the store: their squares
  and \<^verbatim>\<open>prev\<close> links, and the \<^verbatim>\<open>next\<close> array of every board but \<open>b\<close>. The
  parent of a board it allocates is \<open>b\<close> or another board it allocates.
\<close>

definition keeps :: "addr \<Rightarrow> board list \<Rightarrow> board list \<Rightarrow> bool" where
  "keeps b h h' =
     (length h \<le> length h' \<and>
      (\<forall>a<length h. squares (h' ! a) = squares (h ! a) \<and> prev (h' ! a) = prev (h ! a) \<and>
         (a \<noteq> b \<longrightarrow> nextb (h' ! a) = nextb (h ! a))) \<and>
      (\<forall>a. length h \<le> a \<and> a < length h' \<longrightarrow>
         (\<exists>p. prev (h' ! a) = Some p \<and> (p = b \<or> length h \<le> p))))"

text \<open>
  What the three loops of a call on the board \<open>b\<close> keep, with \<open>h\<close> the store when the
  call starts and \<open>js\<close> the jumps generated so far: \<^verbatim>\<open>new_board_num\<close> is their
  number, the first entries of \<^verbatim>\<open>b->next\<close> are the boards made by them, in order,
  the other entries are as they were, and every board allocated since with \<open>b\<close> as
  \<^verbatim>\<open>prev\<close> is one of these entries.
\<close>

definition kids_inv :: "board list \<Rightarrow> addr \<Rightarrow> (int \<times> int \<times> nat) list \<Rightarrow> state \<times> nat \<Rightarrow> bool" where
  "kids_inv h b js = (\<lambda>(s, n).
     b < length h \<and> keeps b h (heap s) \<and>
     length (nextb (heap s ! b)) = length (nextb (h ! b)) \<and>
     n = length js \<and> n \<le> MAX_BOARDS \<and>
     (\<forall>k<length js. k < length (nextb (h ! b)) \<longrightarrow> nth_child h (heap s) b k (js ! k)) \<and>
     (\<forall>k. length js \<le> k \<and> k < length (nextb (h ! b)) \<longrightarrow>
        nextb (heap s ! b) ! k = nextb (h ! b) ! k) \<and>
     (\<forall>a. length js \<le> length (nextb (h ! b)) \<and> length h \<le> a \<and> a < length (heap s) \<and>
          prev (heap s ! a) = Some b \<longrightarrow>
        (\<exists>k<length js. nextb (heap s ! b) ! k = Some a)))"

subsection \<open>Paths in the tree of boards\<close>

text \<open>
  The chain of \<^verbatim>\<open>prev\<close> links from a board up to a board without parent. In the store
  of a search a parent is older than its child, and the chain follows a link only then.
\<close>

function parent_chain :: "board list \<Rightarrow> addr \<Rightarrow> addr list" where
  "parent_chain h a =
     (case prev (h ! a) of
        None \<Rightarrow> [a]
      | Some p \<Rightarrow> if p < a then a # parent_chain h p else [a])"
  by pat_completeness auto
termination
  by (relation "measure snd") auto

declare parent_chain.simps [simp del]

text \<open>A list of boards in which each board is the parent of the next.\<close>

fun parent_path :: "board list \<Rightarrow> addr list \<Rightarrow> bool" where
  "parent_path h [] = True"
| "parent_path h [x] = True"
| "parent_path h (x # y # zs) = (prev (h ! y) = Some x \<and> parent_path h (y # zs))"

text \<open>
  A list of boards in which \<^verbatim>\<open>nextwin\<close> of each board points to the next, and
  \<^verbatim>\<open>nextwin\<close> of the last is \<^verbatim>\<open>NULL\<close>.
\<close>

fun linked :: "board list \<Rightarrow> addr list \<Rightarrow> bool" where
  "linked h [] = True"
| "linked h [x] = (x < length h \<and> nextwin (h ! x) = None)"
| "linked h (x # y # zs) = (x < length h \<and> nextwin (h ! x) = Some y \<and> linked h (y # zs))"

text \<open>
  The store a search from a root board at address 0 leaves: only the root has no parent,
  every other board is younger than its parent, and no \<^verbatim>\<open>nextwin\<close> is set.
\<close>

definition tree_heap :: "board list \<Rightarrow> bool" where
  "tree_heap h =
     (\<forall>a<length h. nextwin (h ! a) = None \<and>
        (case prev (h ! a) of None \<Rightarrow> a = 0 | Some p \<Rightarrow> p < a))"

subsection \<open>A small example\<close>

text \<open>
  Playing a list of jumps \<open>(row, col, offnum)\<close>, each one generated by the search on the
  board before it.
\<close>

fun play :: "grid \<Rightarrow> (int \<times> int \<times> nat) list \<Rightarrow> grid option" where
  "play g [] = Some g"
| "play g ((row, col, offnum) # ms) =
     (if jump_legal g row col offnum
      then case jump_squares g row col offnum of Inr g' \<Rightarrow> play g' ms | Inl e \<Rightarrow> None
      else None)"

text \<open>
  The first twelve jumps of the first line of play the search follows from
  \<^verbatim>\<open>initial_board_1\<close>, and the board they lead to: two pegs in the bottom row, one jump
  left. \<open>endgame_final\<close> is the state the search from this board leaves.
\<close>

definition first_line :: "(int \<times> int \<times> nat) list" where
  "first_line =
     [(6, 4, 1), (5, 9, 4), (3, 5, 3), (3, 7, 3), (5, 3, 1), (2, 6, 2), (6, 8, 4), (4, 4, 3),
      (6, 4, 5), (6, 10, 0), (4, 8, 2), (6, 8, 4)]"

definition endgame_board :: grid where
  "endgame_board =
    [[cI, cI, cI, cI, cI, cI, cI, cI, cI, cI, cI, cI, cI],
     [cI, cI, cI, cI, cI, cI, cI, cI, cI, cI, cI, cI, cI],
     [cI, cI, cI, cI, cI, cI, cO, cI, cI, cI, cI, cI, cI],
     [cI, cI, cI, cI, cI, cO, cI, cO, cI, cI, cI, cI, cI],
     [cI, cI, cI, cI, cO, cI, cO, cI, cO, cI, cI, cI, cI],
     [cI, cI, cI, cO, cI, cO, cI, cO, cI, cO, cI, cI, cI],
     [cI, cI, cX, cI, cX OR POS_LAST, cI, cO, cI, cO, cI, cO, cI, cI],
     [cI, cI, cI, cI, cI, cI, cI, cI, cI, cI, cI, cI, cI],
     [cI, cI, cI, cI, cI, cI, cI, cI, cI, cI, cI, cI, cI]]"

definition endgame_child :: grid where
  "endgame_child =
    [[cI, cI, cI, cI, cI, cI, cI, cI, cI, cI, cI, cI, cI],
     [cI, cI, cI, cI, cI, cI, cI, cI, cI, cI, cI, cI, cI],
     [cI, cI, cI, cI, cI, cI, cO, cI, cI, cI, cI, cI, cI],
     [cI, cI, cI, cI, cI, cO, cI, cO, cI, cI, cI, cI, cI],
     [cI, cI, cI, cI, cO, cI, cO, cI, cO, cI, cI, cI, cI],
     [cI, cI, cI, cO, cI, cO, cI, cO, cI, cO, cI, cI, cI],
     [cI, cI, cO, cI, cO, cI, cX OR POS_LAST, cI, cO, cI, cO, cI, cI],
     [cI, cI, cI, cI, cI, cI, cI, cI, cI, cI, cI, cI, cI],
     [cI, cI, cI, cI, cI, cI, cI, cI, cI, cI, cI, cI, cI]]"

definition endgame_final :: state where
  "endgame_final =
     \<lparr>heap =
        [\<lparr>squares = endgame_board,
          nextb = (replicate MAX_BOARDS None)[0 := Some 1],
          prev = None, nextwin = None, boardnum = 1\<rparr>,
         \<lparr>squares = endgame_child, nextb = replicate MAX_BOARDS None,
          prev = Some 0, nextwin = None, boardnum = 2\<rparr>],
      total_boards = 2, total_winning_boards = 1, depth = 0, winning_board = Some 1\<rparr>"

text \<open>
  The board after the first jump the search makes from \<^verbatim>\<open>initial_board_1\<close>: the peg at
  row 6, column 4 jumps up and to the right into the hole in the middle.
\<close>

definition after_first_jump :: grid where
  "after_first_jump =
    [[cI, cI, cI, cI, cI, cI, cI, cI, cI, cI, cI, cI, cI],
     [cI, cI, cI, cI, cI, cI, cI, cI, cI, cI, cI, cI, cI],
     [cI, cI, cI, cI, cI, cI, cX, cI, cI, cI, cI, cI, cI],
     [cI, cI, cI, cI, cI, cX, cI, cX, cI, cI, cI, cI, cI],
     [cI, cI, cI, cI, cX, cI, cX OR POS_LAST, cI, cX, cI, cI, cI, cI],
     [cI, cI, cI, cX, cI, cO, cI, cX, cI, cX, cI, cI, cI],
     [cI, cI, cX, cI, cO, cI, cX, cI, cX, cI, cX, cI, cI],
     [cI, cI, cI, cI, cI, cI, cI, cI, cI, cI, cI, cI, cI],
     [cI, cI, cI, cI, cI, cI, cI, cI, cI, cI, cI, cI, cI]]"

text \<open>
  The board after the first ten jumps of \<open>first_line\<close>: four pegs. The search from it
  visits seven boards; the fifth is the only one with a single peg.
\<close>

definition late_board :: grid where
  "late_board =
    [[cI, cI, cI, cI, cI, cI, cI, cI, cI, cI, cI, cI, cI],
     [cI, cI, cI, cI, cI, cI, cI, cI, cI, cI, cI, cI, cI],
     [cI, cI, cI, cI, cI, cI, cO, cI, cI, cI, cI, cI, cI],
     [cI, cI, cI, cI, cI, cO, cI, cO, cI, cI, cI, cI, cI],
     [cI, cI, cI, cI, cO, cI, cO, cI, cX OR POS_LAST, cI, cI, cI, cI],
     [cI, cI, cI, cO, cI, cO, cI, cX, cI, cO, cI, cI, cI],
     [cI, cI, cX, cI, cO, cI, cO, cI, cX, cI, cO, cI, cI],
     [cI, cI, cI, cI, cI, cI, cI, cI, cI, cI, cI, cI, cI],
     [cI, cI, cI, cI, cI, cI, cI, cI, cI, cI, cI, cI, cI]]"

section \<open>Properties of grids\<close>

lemmas POS_defs = POS_EMPTY_def POS_FULL_def POS_INVALID_def POS_LAST_def

lemma is_full_simps: "\<not> is_full POS_EMPTY" "is_full POS_FULL" "\<not> is_full POS_INVALID"
  "is_full (POS_FULL OR POS_LAST)"
  by (simp_all add: is_full_def POS_defs)

lemma is_full_clear: "is_full (v AND NOT POS_LAST) = is_full v"
proof -
  have "(v AND NOT POS_LAST) AND POS_FULL = v AND POS_FULL"
    by (rule bit_eqI) (auto simp add: POS_defs bit_simps)
  then show ?thesis by (simp add: is_full_def)
qed

subsection \<open>Grids\<close>

lemma wf_grid_length: "wf_grid g \<Longrightarrow> length g = 9"
  by (simp add: wf_grid_def NUM_ROWS_def)

lemma wf_grid_row: "wf_grid g \<Longrightarrow> r < 9 \<Longrightarrow> length (g ! r) = 13"
  by (simp add: wf_grid_def NUM_ROWS_def NUM_COLS_def list_all_length)

lemma in_bounds_nat: "in_bounds r c \<Longrightarrow> nat r < 9 \<and> nat c < 13"
  by (auto simp add: in_bounds_def NUM_ROWS_def NUM_COLS_def)

lemma wf_gridI: "length g = 9 \<Longrightarrow> (\<And>r. r < 9 \<Longrightarrow> length (g ! r) = 13) \<Longrightarrow> wf_grid g"
  by (simp add: wf_grid_def NUM_ROWS_def NUM_COLS_def list_all_length)

lemma sq_get_in: "in_bounds r c \<Longrightarrow> sq_get g r c = Inr (sq g r c)"
  by (simp add: sq_get_def)

lemma sq_get_Inr: "sq_get g r c = Inr v \<Longrightarrow> in_bounds r c \<and> v = sq g r c"
  by (auto simp add: sq_get_def split: if_splits)

lemma sq_set_Inr: "sq_set g r c v = Inr g' \<Longrightarrow> in_bounds r c"
  by (auto simp add: sq_set_def split: if_splits)

lemma wf_sq_set:
  assumes "wf_grid g" "sq_set g r c v = Inr g'"
  shows "wf_grid g'"
proof (rule wf_gridI)
  from assms(2) have g': "g' = g[nat r := (g ! nat r)[nat c := v]]"
    by (auto simp add: sq_set_def split: if_splits)
  show "length g' = 9" using assms(1) by (simp add: g' wf_grid_length)
  show "length (g' ! k) = 13" if "k < 9" for k
    using assms(1) that by (cases "k = nat r") (simp_all add: g' wf_grid_length wf_grid_row)
qed

lemma sq_sq_set:
  assumes "wf_grid g" "sq_set g r c v = Inr g'" "in_bounds r' c'"
  shows "sq g' r' c' = (if r' = r \<and> c' = c then v else sq g r' c')"
proof -
  from assms(2) have ib: "in_bounds r c" and g': "g' = g[nat r := (g ! nat r)[nat c := v]]"
    by (auto simp add: sq_set_def split: if_splits)
  from ib assms(3) have n: "nat r < 9" "nat c < 13" "nat r' < 9" "nat c' < 13"
    "nat r = nat r' \<longleftrightarrow> r' = r" "nat c = nat c' \<longleftrightarrow> c' = c"
    by (auto simp add: in_bounds_def NUM_ROWS_def NUM_COLS_def)
  with assms(1) have l: "nat r < length g" "nat c < length (g ! nat r)"
    by (simp_all add: wf_grid_length wf_grid_row)
  show ?thesis
    using l n(5,6) by (auto simp add: g' sq_def nth_list_update)
qed

lemma wf_clear_last: "wf_grid g \<Longrightarrow> wf_grid (clear_last g)"
  by (simp add: clear_last_def wf_grid_def list_all_length)

lemma sq_clear_last:
  "wf_grid g \<Longrightarrow> in_bounds r c \<Longrightarrow> sq (clear_last g) r c = sq g r c AND NOT POS_LAST"
  using in_bounds_nat [of r c]
  by (simp add: clear_last_def sq_def wf_grid_length wf_grid_row)

subsection \<open>Counting cells\<close>

lemma sum_list_update_int:
  "k < length xs \<Longrightarrow> sum_list (xs[k := x]) = sum_list xs - xs ! k + (x :: int)"
proof (induction xs arbitrary: k)
  case Nil
  then show ?case by simp
next
  case (Cons y ys)
  then show ?case by (cases k) simp_all
qed

lemma count_cells_sq_set:
  assumes "wf_grid g" "sq_set g r c v = Inr g'"
  shows "count_cells P g' =
     count_cells P g - (if P (sq g r c) then 1 else 0) + (if P v then 1 else 0)"
proof -
  let ?f = "\<lambda>v. if P v then 1 else (0::int)"
  let ?F = "\<lambda>row. sum_list (map ?f row)"
  from assms(2) have ib: "in_bounds r c" and g': "g' = g[nat r := (g ! nat r)[nat c := v]]"
    by (auto simp add: sq_set_def split: if_splits)
  from ib have n: "nat r < 9" "nat c < 13" using in_bounds_nat by auto
  with assms(1) have l: "nat r < length g" "nat c < length (g ! nat r)"
    by (simp_all add: wf_grid_length wf_grid_row)
  have row: "?F ((g ! nat r)[nat c := v]) = ?F (g ! nat r) - ?f (g ! nat r ! nat c) + ?f v"
    using l(2) by (simp only: map_update sum_list_update_int length_map nth_map)
  have "count_cells P g' = sum_list ((map ?F g)[nat r := ?F ((g ! nat r)[nat c := v])])"
    by (simp only: count_cells_def g' map_update)
  also have "\<dots> = sum_list (map ?F g) - ?F (g ! nat r) + ?F ((g ! nat r)[nat c := v])"
    using l(1) by (simp only: sum_list_update_int length_map nth_map)
  finally show ?thesis
    by (simp add: row count_cells_def sq_def)
qed

lemma count_cells_clear_last:
  assumes "\<And>v. P (v AND NOT POS_LAST) = P v"
  shows "count_cells P (clear_last g) = count_cells P g"
  by (simp add: count_cells_def clear_last_def comp_def assms)

lemma count_cells_none:
  assumes "\<And>v. \<not> P (v AND NOT POS_LAST)"
  shows "count_cells P (clear_last g) = 0"
  by (simp add: count_cells_def clear_last_def comp_def assms)

lemma count_cells_nonneg: "0 \<le> count_cells P g"
  unfolding count_cells_def by (intro sum_list_nonneg) (auto intro!: sum_list_nonneg)

lemma count_pegs_cells: "count_pegs g = count_cells is_full g"
proof -
  have "count_row = (\<lambda>row. sum_list (map (\<lambda>v. if is_full v then 1 else 0) row))"
    by (rule ext) (simp add: count_row_def)
  then show ?thesis by (simp add: count_pegs_def count_cells_def)
qed

lemma count_pegs_sq_set:
  assumes "wf_grid g" "sq_set g r c v = Inr g'"
  shows "count_pegs g' =
     count_pegs g - (if is_full (sq g r c) then 1 else 0) + (if is_full v then 1 else 0)"
  using assms unfolding count_pegs_cells by (rule count_cells_sq_set)

lemma count_pegs_clear_last: "count_pegs (clear_last g) = count_pegs g"
  unfolding count_pegs_cells by (rule count_cells_clear_last) (rule is_full_clear)

lemma count_pegs_nonneg: "0 \<le> count_pegs g"
  unfolding count_pegs_cells by (rule count_cells_nonneg)

lemma has_last_clear: "\<not> has_last (v AND NOT POS_LAST)"
proof -
  have "(v AND NOT POS_LAST) AND POS_LAST = 0"
    by (rule bit_eqI) (auto simp add: POS_defs bit_simps)
  then show ?thesis by (simp add: has_last_def)
qed

lemma has_last_simps: "\<not> has_last POS_EMPTY" "has_last (POS_FULL OR POS_LAST)"
  by (simp_all add: has_last_def POS_defs)

subsection \<open>The ranges of the loops\<close>

lemma rows_eq: "rows = [0, 1, 2, 3, 4, 5, 6, 7, 8]"
  by (simp add: rows_def NUM_ROWS_def upt_rec)

lemma cols_eq: "cols = [0, 1, 2, 3, 4, 5, 6, 7, 8, 9, 10, 11, 12]"
  by (simp add: cols_def NUM_COLS_def upt_rec)

lemma offnums_eq: "offnums = [0, 1, 2, 3, 4, 5]"
  by (simp add: offnums_def NUM_OFFSETS_def upt_rec)

lemma in_rows_cols: "row \<in> set rows \<Longrightarrow> col \<in> set cols \<Longrightarrow> in_bounds row col"
  by (auto simp add: rows_def cols_def in_bounds_def)

lemma in_offnums: "offnum \<in> set offnums \<Longrightarrow> offnum < NUM_OFFSETS"
  by (simp add: offnums_def)

subsection \<open>One jump\<close>

lemma offnum_cases:
  "offnum < NUM_OFFSETS \<Longrightarrow>
   offnum = 0 \<or> offnum = 1 \<or> offnum = 2 \<or> offnum = 3 \<or> offnum = 4 \<or> offnum = 5"
  by (simp add: NUM_OFFSETS_def) arith

lemma offsets_cases:
  assumes "offnum < NUM_OFFSETS"
  shows "(rowoffsets ! offnum, coloffsets ! offnum) \<in>
           {(-1, -1), (-1, 1), (1, -1), (1, 1), (0, -2), (0, 2)}"
  using offnum_cases [OF assms] by (auto simp add: rowoffsets_def coloffsets_def)

lemma coloffsets_nonzero: "offnum < NUM_OFFSETS \<Longrightarrow> coloffsets ! offnum \<noteq> 0"
  using offsets_cases [of offnum] by auto

lemma opposite_offsets:
  assumes "offnum < NUM_OFFSETS"
  shows "opposite offnum < NUM_OFFSETS \<and>
         rowoffsets ! opposite offnum = - (rowoffsets ! offnum) \<and>
         coloffsets ! opposite offnum = - (coloffsets ! offnum)"
  using offnum_cases [OF assms]
  by (auto simp add: opposite_def rowoffsets_def coloffsets_def NUM_OFFSETS_def)

lemma jump_test_eq:
  "jump_test g row col offnum =
     (if \<not> in_bounds (row + rowoffsets ! offnum) (col + coloffsets ! offnum) then Inl OutOfBounds
      else if \<not> is_full (sq g (row + rowoffsets ! offnum) (col + coloffsets ! offnum))
        then Inr False
      else if \<not> in_bounds (row + 2 * rowoffsets ! offnum) (col + 2 * coloffsets ! offnum)
        then Inl OutOfBounds
      else Inr (sq g (row + 2 * rowoffsets ! offnum) (col + 2 * coloffsets ! offnum) = POS_EMPTY))"
  by (simp add: jump_test_def Let_def sq_get_def bind_res_def)

lemma jump_test_True:
  "jump_test g row col offnum = Inr True \<longleftrightarrow>
     in_bounds (row + rowoffsets ! offnum) (col + coloffsets ! offnum) \<and>
     is_full (sq g (row + rowoffsets ! offnum) (col + coloffsets ! offnum)) \<and>
     in_bounds (row + 2 * rowoffsets ! offnum) (col + 2 * coloffsets ! offnum) \<and>
     sq g (row + 2 * rowoffsets ! offnum) (col + 2 * coloffsets ! offnum) = POS_EMPTY"
  by (simp add: jump_test_eq)

lemma jump_legalD:
  assumes "jump_legal g row col offnum"
  shows "in_bounds row col" "offnum < NUM_OFFSETS" "is_full (sq g row col)"
    "in_bounds (row + rowoffsets ! offnum) (col + coloffsets ! offnum)"
    "is_full (sq g (row + rowoffsets ! offnum) (col + coloffsets ! offnum))"
    "in_bounds (row + 2 * rowoffsets ! offnum) (col + 2 * coloffsets ! offnum)"
    "sq g (row + 2 * rowoffsets ! offnum) (col + 2 * coloffsets ! offnum) = POS_EMPTY"
  using assms by (simp_all add: jump_legal_def jump_test_True)

text \<open>The grid after a jump the search generates, cell by cell.\<close>

lemma jump_squares_legal:
  assumes wf: "wf_grid g" and legal: "jump_legal g row col offnum"
  obtains g' where "jump_squares g row col offnum = Inr g'" "wf_grid g'"
    "\<And>r c. in_bounds r c \<Longrightarrow>
       sq g' r c =
         (if r = row + 2 * rowoffsets ! offnum \<and> c = col + 2 * coloffsets ! offnum
            then POS_FULL OR POS_LAST
          else if (r = row \<and> c = col) \<or>
                  (r = row + rowoffsets ! offnum \<and> c = col + coloffsets ! offnum)
            then POS_EMPTY
          else sq g r c AND NOT POS_LAST)"
    "count_pegs g' = count_pegs g - 1" "count_last g' = 1"
proof -
  let ?ro = "rowoffsets ! offnum" and ?co = "coloffsets ! offnum"
  note L = jump_legalD [OF legal]
  have co: "?co \<noteq> 0" using L(2) by (rule coloffsets_nonzero)
  obtain g1 where g1: "sq_set (clear_last g) row col POS_EMPTY = Inr g1"
    using L(1) by (simp add: sq_set_def)
  obtain g2 where g2: "sq_set g1 (row + ?ro) (col + ?co) POS_EMPTY = Inr g2"
    using L(4) by (simp add: sq_set_def)
  obtain g3 where g3: "sq_set g2 (row + 2 * ?ro) (col + 2 * ?co) (POS_FULL OR POS_LAST) = Inr g3"
    using L(6) by (simp add: sq_set_def)
  have wf0: "wf_grid (clear_last g)" using wf by (rule wf_clear_last)
  have wf1: "wf_grid g1" using wf0 g1 by (rule wf_sq_set)
  have wf2: "wf_grid g2" using wf1 g2 by (rule wf_sq_set)
  have wf3: "wf_grid g3" using wf2 g3 by (rule wf_sq_set)
  have js: "jump_squares g row col offnum = Inr g3"
    by (simp add: jump_squares_def Let_def bind_res_def g1 g2 g3)
  have s1: "sq g1 r c = (if r = row \<and> c = col then POS_EMPTY else sq g r c AND NOT POS_LAST)"
    if "in_bounds r c" for r c
    using that by (simp add: sq_sq_set [OF wf0 g1] sq_clear_last [OF wf])
  have s2: "sq g2 r c = (if r = row + ?ro \<and> c = col + ?co then POS_EMPTY else sq g1 r c)"
    if "in_bounds r c" for r c
    using that by (simp add: sq_sq_set [OF wf1 g2])
  have s3: "sq g3 r c =
      (if r = row + 2 * ?ro \<and> c = col + 2 * ?co then POS_FULL OR POS_LAST else sq g2 r c)"
    if "in_bounds r c" for r c
    using that by (simp add: sq_sq_set [OF wf2 g3])
  have cells: "sq g3 r c =
         (if r = row + 2 * ?ro \<and> c = col + 2 * ?co then POS_FULL OR POS_LAST
          else if (r = row \<and> c = col) \<or> (r = row + ?ro \<and> c = col + ?co) then POS_EMPTY
          else sq g r c AND NOT POS_LAST)" if "in_bounds r c" for r c
    unfolding s3 [OF that] s2 [OF that] s1 [OF that] using co by auto
  have c0: "sq (clear_last g) row col = sq g row col AND NOT POS_LAST"
    using wf L(1) by (rule sq_clear_last)
  have c1: "sq g1 (row + ?ro) (col + ?co) = sq g (row + ?ro) (col + ?co) AND NOT POS_LAST"
    using co L(4) by (simp add: s1)
  have c2: "sq g2 (row + 2 * ?ro) (col + 2 * ?co) = POS_EMPTY"
    using co L(6,7) by (simp add: s1 s2 POS_defs)
  have "count_pegs g3 = count_pegs g - 1"
    using L(3,5)
    by (simp add: count_pegs_sq_set [OF wf2 g3] count_pegs_sq_set [OF wf1 g2]
        count_pegs_sq_set [OF wf0 g1] count_pegs_clear_last c0 c1 c2 is_full_clear is_full_simps)
  moreover have "count_last g3 = 1"
    unfolding count_last_def
    by (simp add: count_cells_sq_set [OF wf2 g3] count_cells_sq_set [OF wf1 g2]
        count_cells_sq_set [OF wf0 g1] count_cells_none has_last_clear c0 c1 c2 has_last_simps)
  ultimately show thesis using js wf3 cells by (intro that)
qed

subsection \<open>The first starting layout\<close>

lemma wf_initial_board_1: "wf_grid initial_board_1"
  by (simp add: wf_grid_def initial_board_1_def NUM_ROWS_def NUM_COLS_def)

lemma legal_initial_6_4_1: "jump_legal initial_board_1 6 4 1"
  by (simp add: jump_legal_def jump_test_eq in_bounds_def sq_def initial_board_1_def
      rowoffsets_def coloffsets_def NUM_ROWS_def NUM_COLS_def NUM_OFFSETS_def is_full_simps)

subsection \<open>Boards on the triangle\<close>

lemma in_bounds_cases:
  assumes "in_bounds r c"
  shows "r \<in> {0, 1, 2, 3, 4, 5, 6, 7, 8}" "c \<in> {0, 1, 2, 3, 4, 5, 6, 7, 8, 9, 10, 11, 12}"
proof -
  from assms have "0 \<le> r" "r < 9" "0 \<le> c" "c < 13"
    by (simp_all add: in_bounds_def NUM_ROWS_def NUM_COLS_def)
  then show "r \<in> {0, 1, 2, 3, 4, 5, 6, 7, 8}"
    "c \<in> {0, 1, 2, 3, 4, 5, 6, 7, 8, 9, 10, 11, 12}"
    by (simp_all, arith+)
qed

lemma hole_bounds:
  assumes "in_bounds r c" and "sq initial_board_1 r c \<noteq> POS_INVALID"
  shows "2 \<le> r \<and> r \<le> 6 \<and> 2 \<le> c \<and> c \<le> 10"
  using in_bounds_cases [OF assms(1)] assms(2)
  by (elim insertE emptyE; simp add: sq_def initial_board_1_def POS_defs)

lemma tri_board_iff:
  "tri_board g \<longleftrightarrow>
     wf_grid g \<and> (\<forall>r c. in_bounds r c \<longrightarrow> cell_ok (sq initial_board_1 r c) (sq g r c))"
proof
  assume tri: "tri_board g"
  then have len: "length g = 9"
    and rws: "\<And>r. r < 9 \<Longrightarrow> list_all2 cell_ok (initial_board_1 ! r) (g ! r)"
    by (simp_all add: tri_board_def list_all2_conv_all_nth wf_grid_length [OF wf_initial_board_1])
  have rlen: "length (g ! r) = 13" if "r < 9" for r
    using rws [OF that] that
    by (simp add: list_all2_conv_all_nth wf_grid_row [OF wf_initial_board_1])
  have "cell_ok (sq initial_board_1 r c) (sq g r c)" if "in_bounds r c" for r c
    using rws [of "nat r"] in_bounds_nat [OF that]
    by (simp add: list_all2_conv_all_nth sq_def wf_grid_row [OF wf_initial_board_1])
  with len rlen show "wf_grid g \<and>
      (\<forall>r c. in_bounds r c \<longrightarrow> cell_ok (sq initial_board_1 r c) (sq g r c))"
    by (simp add: wf_gridI)
next
  assume r: "wf_grid g \<and>
      (\<forall>r c. in_bounds r c \<longrightarrow> cell_ok (sq initial_board_1 r c) (sq g r c))"
  then have wf: "wf_grid g" by simp
  have "cell_ok (initial_board_1 ! i ! j) (g ! i ! j)" if "i < 9" "j < 13" for i j
  proof -
    have "in_bounds (int i) (int j)"
      using that by (simp add: in_bounds_def NUM_ROWS_def NUM_COLS_def)
    with r have "cell_ok (sq initial_board_1 (int i) (int j)) (sq g (int i) (int j))" by blast
    then show ?thesis by (simp add: sq_def)
  qed
  then show "tri_board g"
    using wf
    by (simp add: tri_board_def list_all2_conv_all_nth wf_grid_length wf_grid_row
        wf_initial_board_1)
qed

lemma tri_board_wf: "tri_board g \<Longrightarrow> wf_grid g"
  by (simp add: tri_board_iff)

lemma tri_board_cell:
  "tri_board g \<Longrightarrow> in_bounds r c \<Longrightarrow> cell_ok (sq initial_board_1 r c) (sq g r c)"
  by (simp add: tri_board_iff)

lemma cell_ok_full: "cell_ok v0 v \<Longrightarrow> is_full v \<Longrightarrow> v0 \<noteq> POS_INVALID"
  by (auto simp add: cell_ok_def is_full_simps split: if_splits)

lemma cell_ok_empty: "cell_ok v0 v \<Longrightarrow> v = POS_EMPTY \<Longrightarrow> v0 \<noteq> POS_INVALID"
  by (auto simp add: cell_ok_def POS_defs split: if_splits)

lemma cell_ok_clear: "cell_ok v0 v \<Longrightarrow> cell_ok v0 (v AND NOT POS_LAST)"
  by (auto simp add: cell_ok_def POS_defs split: if_splits)

lemma cell_ok_new:
  "v0 \<noteq> POS_INVALID \<Longrightarrow> cell_ok v0 POS_EMPTY"
  "v0 \<noteq> POS_INVALID \<Longrightarrow> cell_ok v0 (POS_FULL OR POS_LAST)"
  by (simp_all add: cell_ok_def)

lemma tri_board_full_bounds:
  assumes "tri_board g" "in_bounds r c" "is_full (sq g r c)"
  shows "2 \<le> r \<and> r \<le> 6 \<and> 2 \<le> c \<and> c \<le> 10"
  using assms(2) cell_ok_full [OF tri_board_cell [OF assms(1,2)] assms(3)] by (rule hole_bounds)

lemma tri_initial_board_1: "tri_board initial_board_1"
  by (simp add: tri_board_def initial_board_1_def cell_ok_def POS_defs)

text \<open>On a board of the triangle the test of line 221 never reads outside the array.\<close>

lemma tri_board_jump_test:
  assumes tri: "tri_board g" and ib: "in_bounds row col" and full: "is_full (sq g row col)"
    and off: "offnum < NUM_OFFSETS"
  shows "jump_test g row col offnum = Inr (jump_test g row col offnum = Inr True)"
proof -
  let ?ro = "rowoffsets ! offnum" and ?co = "coloffsets ! offnum"
  note oc = offsets_cases [OF off]
  from tri ib full have b: "2 \<le> row \<and> row \<le> 6 \<and> 2 \<le> col \<and> col \<le> 10"
    by (rule tri_board_full_bounds)
  with oc have mid: "in_bounds (row + ?ro) (col + ?co)"
    by (auto simp add: in_bounds_def NUM_ROWS_def NUM_COLS_def)
  show ?thesis
  proof (cases "is_full (sq g (row + ?ro) (col + ?co))")
    case False
    with mid show ?thesis by (simp add: jump_test_eq)
  next
    case True
    with tri mid have "2 \<le> row + ?ro \<and> row + ?ro \<le> 6 \<and> 2 \<le> col + ?co \<and> col + ?co \<le> 10"
      by (rule tri_board_full_bounds)
    with oc have "in_bounds (row + 2 * ?ro) (col + 2 * ?co)"
      by (auto simp add: in_bounds_def NUM_ROWS_def NUM_COLS_def)
    with mid True show ?thesis by (simp add: jump_test_eq)
  qed
qed

lemma tri_board_jump:
  assumes tri: "tri_board g" and legal: "jump_legal g row col offnum"
    and js: "jump_squares g row col offnum = Inr g'"
  shows "tri_board g'"
proof -
  let ?ro = "rowoffsets ! offnum" and ?co = "coloffsets ! offnum"
  note L = jump_legalD [OF legal]
  have wf: "wf_grid g" using tri by (rule tri_board_wf)
  from wf legal obtain g'' where g'': "jump_squares g row col offnum = Inr g''" "wf_grid g''"
    and cells: "\<And>r c. in_bounds r c \<Longrightarrow>
       sq g'' r c =
         (if r = row + 2 * ?ro \<and> c = col + 2 * ?co then POS_FULL OR POS_LAST
          else if (r = row \<and> c = col) \<or> (r = row + ?ro \<and> c = col + ?co) then POS_EMPTY
          else sq g r c AND NOT POS_LAST)"
    by (rule jump_squares_legal) blast
  from g''(1) js have eq: "g'' = g'" by simp
  have h1: "sq initial_board_1 row col \<noteq> POS_INVALID"
    using tri_board_cell [OF tri L(1)] L(3) by (rule cell_ok_full)
  have h2: "sq initial_board_1 (row + ?ro) (col + ?co) \<noteq> POS_INVALID"
    using tri_board_cell [OF tri L(4)] L(5) by (rule cell_ok_full)
  have h3: "sq initial_board_1 (row + 2 * ?ro) (col + 2 * ?co) \<noteq> POS_INVALID"
    using tri_board_cell [OF tri L(6)] L(7) by (rule cell_ok_empty)
  have "cell_ok (sq initial_board_1 r c) (sq g'' r c)" if "in_bounds r c" for r c
    using tri_board_cell [OF tri that] h1 h2 h3
    by (auto simp add: cells [OF that] cell_ok_new cell_ok_clear)
  with g''(2) eq show ?thesis by (simp add: tri_board_iff)
qed

lemma reachable_tri_board:
  "reachable_from initial_board_1 g \<Longrightarrow> tri_board g"
  by (induction rule: reachable_from.induct) (auto intro: tri_initial_board_1 tri_board_jump)

subsection \<open>At most 14 jumps on a board of the triangle\<close>

lemma hole_iff:
  "hole r c \<longleftrightarrow>
     (r, c) \<in> {(2, 6), (3, 5), (3, 7), (4, 4), (4, 6), (4, 8), (5, 3), (5, 5), (5, 7), (5, 9),
               (6, 2), (6, 4), (6, 6), (6, 8), (6, 10)}"
proof (cases "in_bounds r c")
  case True
  from in_bounds_cases [OF True] True show ?thesis
    by (elim insertE emptyE; simp add: hole_def sq_def initial_board_1_def POS_defs)
next
  case False
  then show ?thesis by (auto simp add: hole_def in_bounds_def NUM_ROWS_def NUM_COLS_def)
qed

lemma line3_le: "line3 a b c \<le> 1"
  by (simp add: line3_def jmp_def)

lemma line4_le: "line4 a b c d \<le> 2"
  by (simp add: line4_def line3_def jmp_def)

lemma line4_end: "a \<or> d \<Longrightarrow> line4 a b c d \<le> 1"
  by (auto simp add: line4_def line3_def jmp_def)

lemma line5_le: "line5 a b c d e \<le> 2"
  by (simp add: line5_def line3_def jmp_def)

lemma line5_zero: "\<not> b \<Longrightarrow> \<not> d \<Longrightarrow> line5 a b c d e = 0"
  by (simp add: line5_def line3_def jmp_def)

lemma if_add_jmp:
  "(if a then x + y else 0) = (if a then x else 0) + (if a then y else (0::nat))"
  "(if a then (if b \<and> \<not> c then Suc 0 else 0) else 0) = jmp a b c"
  by (simp_all add: jmp_def)

lemma lines_bound:
  "line3 p44 p46 p48 + line4 p53 p55 p57 p59 + line5 p62 p64 p66 p68 p6a +
   (line5 p26 p37 p48 p59 p6a + line4 p35 p46 p57 p68 + line3 p44 p55 p66) +
   (line5 p26 p35 p44 p53 p62 + line4 p37 p46 p55 p64 + line3 p48 p57 p66) \<le> 14"
proof -
  note b = line3_le [of p44 p46 p48] line3_le [of p44 p55 p66] line3_le [of p48 p57 p66]
    line4_le [of p53 p55 p57 p59] line4_le [of p35 p46 p57 p68] line4_le [of p37 p46 p55 p64]
    line5_le [of p62 p64 p66 p68 p6a] line5_le [of p26 p37 p48 p59 p6a]
    line5_le [of p26 p35 p44 p53 p62]
  consider "p53 \<or> p59" | "p35 \<or> p68" | "p37 \<or> p64" | "\<not> p64 \<and> \<not> p68"
    by blast
  then show ?thesis
  proof cases
    case 1
    from line4_end [OF this, of p55 p57] b show ?thesis by linarith
  next
    case 2
    from line4_end [OF this, of p46 p57] b show ?thesis by linarith
  next
    case 3
    from line4_end [OF this, of p46 p55] b show ?thesis by linarith
  next
    case 4
    then have "line5 p62 p64 p66 p68 p6a = 0" by (simp add: line5_zero)
    with b show ?thesis by linarith
  qed
qed

lemma njumps_le:
  assumes "\<And>r c. \<not> hole r c \<Longrightarrow> P r c = False"
  shows "njumps P \<le> 14"
proof -
  have "njumps P =
   line3 (P 4 4) (P 4 6) (P 4 8) + line4 (P 5 3) (P 5 5) (P 5 7) (P 5 9) +
   line5 (P 6 2) (P 6 4) (P 6 6) (P 6 8) (P 6 10) +
   (line5 (P 2 6) (P 3 7) (P 4 8) (P 5 9) (P 6 10) + line4 (P 3 5) (P 4 6) (P 5 7) (P 6 8) +
    line3 (P 4 4) (P 5 5) (P 6 6)) +
   (line5 (P 2 6) (P 3 5) (P 4 4) (P 5 3) (P 6 2) + line4 (P 3 7) (P 4 6) (P 5 5) (P 6 4) +
    line3 (P 4 8) (P 5 7) (P 6 6))"
    unfolding njumps_def rows_eq cols_eq offnums_eq
    apply (simp only: list.map sum_list.Cons sum_list.Nil)
    apply (simp add: assms hole_iff split del: if_split)
    apply (simp add: assms hole_iff rowoffsets_def coloffsets_def
        split del: if_split cong del: if_weak_cong)
    apply (simp only: if_add_jmp line3_def line4_def line5_def)
    done
  then show ?thesis by (simp add: lines_bound)
qed

lemma tri_count_jumps_njumps:
  assumes tri: "tri_board g"
  shows "count_jumps g = njumps (\<lambda>r c. in_bounds r c \<and> is_full (sq g r c))"
proof -
  have e: "(in_bounds r c \<and> sq g r c = POS_EMPTY) =
      (hole r c \<and> \<not> (in_bounds r c \<and> is_full (sq g r c)))" for r c
    using tri_board_cell [OF tri, of r c]
    by (auto simp add: hole_def cell_ok_def is_full_def POS_defs split: if_splits)
  have t: "(jump_test g row col offnum = Inr True) =
     ((in_bounds (row + rowoffsets ! offnum) (col + coloffsets ! offnum) \<and>
       is_full (sq g (row + rowoffsets ! offnum) (col + coloffsets ! offnum))) \<and>
      hole (row + 2 * rowoffsets ! offnum) (col + 2 * coloffsets ! offnum) \<and>
      \<not> (in_bounds (row + 2 * rowoffsets ! offnum) (col + 2 * coloffsets ! offnum) \<and>
         is_full (sq g (row + 2 * rowoffsets ! offnum) (col + 2 * coloffsets ! offnum))))"
    for row col offnum
    unfolding jump_test_True e [symmetric] by blast
  show ?thesis
    unfolding count_jumps_def jumps_in_rows_def jumps_in_row_def jumps_at_def njumps_def t
    by (intro arg_cong [where f = sum_list] map_cong refl) (simp add: in_rows_cols)
qed

lemma tri_count_jumps_le:
  assumes "tri_board g"
  shows "count_jumps g \<le> MAX_BOARDS"
proof -
  have "\<not> hole r c \<Longrightarrow> (in_bounds r c \<and> is_full (sq g r c)) = False" for r c
    using tri_board_cell [OF assms, of r c] cell_ok_full [of "sq initial_board_1 r c" "sq g r c"]
    by (auto simp add: hole_def)
  then have "njumps (\<lambda>r c. in_bounds r c \<and> is_full (sq g r c)) \<le> 14"
    by (rule njumps_le)
  then show ?thesis
    by (simp add: tri_count_jumps_njumps [OF assms] MAX_BOARDS_def)
qed

section \<open>The search\<close>

subsection \<open>Outcomes of runs\<close>

lemma outcome_Inr [simp]: "outcome (Inr x) Q E = Q x"
  by (simp add: outcome_def)

lemma outcome_Inl [simp]: "outcome (Inl e) Q E = E e"
  by (simp add: outcome_def)

lemma outcome_bind:
  assumes "outcome m R E" and "\<And>x. R x \<Longrightarrow> outcome (f x) Q E"
  shows "outcome (bind_res m f) Q E"
  using assms by (cases m) (simp_all add: bind_res_def)

lemma outcome_weaken:
  assumes "outcome m Q E" and "\<And>x. Q x \<Longrightarrow> Q' x" and "\<And>e. E e \<Longrightarrow> E' e"
  shows "outcome m Q' E'"
  using assms by (cases m) simp_all

text \<open>
  A loop that counts: the body adds \<open>w i\<close> to the counter and keeps \<open>B\<close>, as long as the
  counter stays within \<open>K\<close>.
\<close>

lemma for_loop_count:
  fixes w :: "'i \<Rightarrow> nat" and n K :: nat
  assumes "B s" and "n + sum_list (map w xs) \<le> K"
    and step: "\<And>i s m. i \<in> set xs \<Longrightarrow> B s \<Longrightarrow> m + w i \<le> K \<Longrightarrow>
      outcome (body i (s, m)) (\<lambda>(s', m'). B s' \<and> m' = m + w i) E"
  shows "outcome (for_loop xs body (s, n)) (\<lambda>(s', n'). B s' \<and> n' = n + sum_list (map w xs)) E"
  using assms
proof (induction xs arbitrary: s n)
  case Nil
  then show ?case by simp
next
  case (Cons i xs)
  have "outcome (body i (s, n)) (\<lambda>(s', m'). B s' \<and> m' = n + w i) E"
    using Cons.prems(1,2) by (intro Cons.prems(3)) simp_all
  moreover have "outcome (for_loop xs body x)
      (\<lambda>(s', n'). B s' \<and> n' = n + sum_list (map w (i # xs))) E"
    if "(\<lambda>(s', m'). B s' \<and> m' = n + w i) x" for x
  proof -
    obtain s' m' where x: "x = (s', m')" by (cases x)
    with that have B: "B s'" and m': "m' = n + w i" by simp_all
    have "outcome (for_loop xs body (s', m'))
        (\<lambda>(s'', n'). B s'' \<and> n' = m' + sum_list (map w xs)) E"
      using B Cons.prems(2) by (intro Cons.IH Cons.prems(3)) (simp_all add: m')
    then show ?thesis by (simp add: x m' add.assoc)
  qed
  ultimately show ?case by (simp only: for_loop.simps) (rule outcome_bind)
qed

subsection \<open>Frames\<close>

lemma frame_refl: "frame h h"
  by (simp add: frame_def)

lemma frame_trans: "frame h h' \<Longrightarrow> frame h' h'' \<Longrightarrow> frame h h''"
  by (auto simp add: frame_def)

lemma frame_length: "frame h h' \<Longrightarrow> length h \<le> length h'"
  by (simp add: frame_def)

lemma frame_squares: "frame h h' \<Longrightarrow> a < length h \<Longrightarrow> squares (h' ! a) = squares (h ! a)"
  by (simp add: frame_def)

lemma frame_prev: "frame h h' \<Longrightarrow> a < length h \<Longrightarrow> prev (h' ! a) = prev (h ! a)"
  by (simp add: frame_def)

lemma frame_nextwin: "frame h h' \<Longrightarrow> a < length h \<Longrightarrow> nextwin (h' ! a) = nextwin (h ! a)"
  by (simp add: frame_def)

lemma child_ok_frame:
  assumes "frame h h'" and "c < length h" and "child_ok h c"
  shows "child_ok h' c"
proof -
  from assms(3) obtain p row col offnum where
    p: "prev (h ! c) = Some p" "p < c" "nextwin (h ! c) = None" "wf_grid (squares (h ! p))"
      "jump_legal (squares (h ! p)) row col offnum"
      "jump_squares (squares (h ! p)) row col offnum = Inr (squares (h ! c))"
    unfolding child_ok_def by blast
  from p(2) assms(2) have pl: "p < length h" by simp
  note f = frame_squares [OF assms(1)] frame_prev [OF assms(1)] frame_nextwin [OF assms(1)]
  show ?thesis
    unfolding child_ok_def
    using p by (intro exI [of _ p] exI [of _ row] exI [of _ col] exI [of _ offnum])
      (simp add: f assms(2) pl)
qed

lemma won_frame: "frame h h' \<Longrightarrow> a < length h \<Longrightarrow> won h' a = won h a"
  by (simp add: won_def frame_squares)

lemma find_append_case:
  "find P (xs @ ys) = (case find P xs of None \<Rightarrow> find P ys | Some x \<Rightarrow> Some x)"
  by (induction xs) simp_all

lemma find_won_frame:
  assumes "frame h h'" and "\<forall>a\<in>set xs. a < length h"
  shows "find (won h') xs = find (won h) xs"
  using assms by (intro find_cong refl) (simp add: won_frame)

lemma filter_won_frame:
  assumes "frame h h'" and "\<forall>a\<in>set xs. a < length h"
  shows "filter (won h') xs = filter (won h) xs"
  using assms by (intro filter_cong refl) (simp add: won_frame)

subsection \<open>The relation between the states of a search\<close>

lemma search_relD:
  assumes "search_rel vs s s'"
  shows "frame (heap s) (heap s')"
    and "\<And>c. length (heap s) \<le> c \<Longrightarrow> c < length (heap s') \<Longrightarrow> child_ok (heap s') c"
    and "depth s' = depth s"
    and "total_boards s' = total_boards s + int (length (heap s') - length (heap s))"
    and "winning_board s' =
        (case winning_board s of
           Some w \<Rightarrow> Some w
         | None \<Rightarrow> find (won (heap s')) (visited vs s s'))"
    and "total_winning_boards s' =
        total_winning_boards s + int (length (filter (won (heap s')) (visited vs s s')))"
    and "\<And>a. a < length (heap s) \<Longrightarrow>
        boardnum (heap s' ! a) =
          (if a \<in> set vs then total_boards s else boardnum (heap s ! a))"
    and "\<And>c. length (heap s) \<le> c \<Longrightarrow> c < length (heap s') \<Longrightarrow>
        boardnum (heap s' ! c) = total_boards s + int (c - length (heap s)) + 1"
  using assms by (simp_all add: search_rel_def)

lemma search_relI:
  assumes "frame (heap s) (heap s')"
    and "\<And>c. length (heap s) \<le> c \<Longrightarrow> c < length (heap s') \<Longrightarrow> child_ok (heap s') c"
    and "depth s' = depth s"
    and "total_boards s' = total_boards s + int (length (heap s') - length (heap s))"
    and "winning_board s' =
        (case winning_board s of
           Some w \<Rightarrow> Some w
         | None \<Rightarrow> find (won (heap s')) (visited vs s s'))"
    and "total_winning_boards s' =
        total_winning_boards s + int (length (filter (won (heap s')) (visited vs s s')))"
    and "\<And>a. a < length (heap s) \<Longrightarrow>
        boardnum (heap s' ! a) =
          (if a \<in> set vs then total_boards s else boardnum (heap s ! a))"
    and "\<And>c. length (heap s) \<le> c \<Longrightarrow> c < length (heap s') \<Longrightarrow>
        boardnum (heap s' ! c) = total_boards s + int (c - length (heap s)) + 1"
  shows "search_rel vs s s'"
  using assms by (simp add: search_rel_def)

lemma search_rel_refl: "search_rel [] s s"
  by (auto simp add: search_rel_def frame_refl visited_def split: option.split)

lemma visited_trans:
  assumes "length (heap s) \<le> length (heap s')" "length (heap s') \<le> length (heap s'')"
  shows "visited vs s s'' = visited vs s s' @ visited [] s' s''"
proof -
  from assms have "[length (heap s)..<length (heap s'')] =
      [length (heap s)..<length (heap s')] @ [length (heap s')..<length (heap s'')]"
    by (metis le_Suc_ex upt_add_eq_append)
  then show ?thesis by (simp add: visited_def)
qed

lemma search_rel_trans:
  assumes 1: "search_rel vs s s'" and 2: "search_rel [] s' s''"
    and vs: "\<forall>v\<in>set vs. v < length (heap s)"
  shows "search_rel vs s s''"
proof -
  note a = search_relD [OF 1] and b = search_relD [OF 2]
  have l: "length (heap s) \<le> length (heap s')" "length (heap s') \<le> length (heap s'')"
    using a(1) b(1) by (simp_all add: frame_length)
  have v: "visited vs s s'' = visited vs s s' @ visited [] s' s''"
    using l by (rule visited_trans)
  have old: "\<forall>a\<in>set (visited vs s s'). a < length (heap s')"
    using vs l by (auto simp add: visited_def)
  have fr: "frame (heap s) (heap s'')"
    using a(1) b(1) by (rule frame_trans)
  have ch: "child_ok (heap s'') c" if "length (heap s) \<le> c" "c < length (heap s'')" for c
  proof (cases "c < length (heap s')")
    case True
    with a(2) that(1) have "child_ok (heap s') c" by simp
    with b(1) True show ?thesis by (rule child_ok_frame)
  next
    case False
    with b(2) that(2) show ?thesis by simp
  qed
  have tb: "total_boards s'' = total_boards s + int (length (heap s'') - length (heap s))"
    using a(4) b(4) l by simp
  have wb: "winning_board s'' =
      (case winning_board s of
         Some w \<Rightarrow> Some w
       | None \<Rightarrow> find (won (heap s'')) (visited vs s s''))"
    by (simp add: b(5) a(5) v find_append_case find_won_frame [OF b(1) old]
        split: option.split)
  have tw: "total_winning_boards s'' =
      total_winning_boards s + int (length (filter (won (heap s'')) (visited vs s s'')))"
    by (simp add: b(6) a(6) v filter_won_frame [OF b(1) old])
  have dp: "depth s'' = depth s" using a(3) b(3) by simp
  have bo: "boardnum (heap s'' ! x) =
      (if x \<in> set vs then total_boards s else boardnum (heap s ! x))"
    if "x < length (heap s)" for x
  proof -
    from that l have "x < length (heap s')" by simp
    then have "boardnum (heap s'' ! x) = boardnum (heap s' ! x)"
      using b(7) [of x] by simp
    with a(7) [OF that] show ?thesis by simp
  qed
  have bn: "boardnum (heap s'' ! c) = total_boards s + int (c - length (heap s)) + 1"
    if "length (heap s) \<le> c" "c < length (heap s'')" for c
  proof (cases "c < length (heap s')")
    case True
    then have "boardnum (heap s'' ! c) = boardnum (heap s' ! c)"
      using b(7) [of c] by simp
    with a(8) [OF that(1) True] show ?thesis by simp
  next
    case False
    with b(8) [of c] that a(4) l show ?thesis by simp
  qed
  from fr ch dp tb wb tw bo bn show ?thesis by (rule search_relI)
qed

subsection \<open>Allocating a child\<close>

lemma alloc_child_heap:
  "length (heap (alloc_child s b n g')) = Suc (length (heap s))"
  "heap (alloc_child s b n g') ! length (heap s) =
     \<lparr>squares = g', nextb = replicate MAX_BOARDS None, prev = Some b, nextwin = None,
      boardnum = 0\<rparr>"
  by (simp_all add: alloc_child_def nth_append)

lemma alloc_child_old:
  assumes "a < length (heap s)"
  shows "squares (heap (alloc_child s b n g') ! a) = squares (heap s ! a)"
    and "prev (heap (alloc_child s b n g') ! a) = prev (heap s ! a)"
    and "nextwin (heap (alloc_child s b n g') ! a) = nextwin (heap s ! a)"
    and "boardnum (heap (alloc_child s b n g') ! a) = boardnum (heap s ! a)"
  using assms by (cases "a = b"; simp add: alloc_child_def nth_append)+

lemma alloc_child_globals:
  "depth (alloc_child s b n g') = depth s"
  "total_boards (alloc_child s b n g') = total_boards s + 1"
  "winning_board (alloc_child s b n g') = winning_board s"
  "total_winning_boards (alloc_child s b n g') = total_winning_boards s"
  by (simp_all add: alloc_child_def)

lemma alloc_child_frame: "frame (heap s) (heap (alloc_child s b n g'))"
  by (simp add: frame_def alloc_child_heap alloc_child_old)

lemma alloc_child_ok:
  assumes "b < length (heap s)" and "wf_grid (squares (heap s ! b))"
    and "jump_legal (squares (heap s ! b)) row col offnum"
    and "jump_squares (squares (heap s ! b)) row col offnum = Inr g'"
  shows "child_ok (heap (alloc_child s b n g')) (length (heap s))"
  unfolding child_ok_def
  using assms
  by (intro exI [of _ b] exI [of _ row] exI [of _ col] exI [of _ offnum])
    (simp add: alloc_child_heap alloc_child_old)

lemma search_rel_alloc_call:
  assumes b: "b < length (heap s)" and wf: "wf_grid (squares (heap s ! b))"
    and legal: "jump_legal (squares (heap s ! b)) row col offnum"
    and js: "jump_squares (squares (heap s ! b)) row col offnum = Inr g'"
    and rel: "search_rel [length (heap s)] (alloc_child s b n g') s'"
  shows "search_rel [] s s'"
proof -
  let ?s4 = "alloc_child s b n g'" and ?c = "length (heap s)"
  note r = search_relD [OF rel]
  have l: "Suc ?c \<le> length (heap s')"
    using r(1) by (simp add: frame_def alloc_child_heap)
  have fr: "frame (heap s) (heap s')"
    using alloc_child_frame r(1) by (rule frame_trans)
  have ch: "child_ok (heap s') c" if "?c \<le> c" "c < length (heap s')" for c
  proof (cases "c = ?c")
    case True
    have c4: "?c < length (heap ?s4)" by (simp add: alloc_child_heap)
    have "child_ok (heap ?s4) ?c" using b wf legal js by (rule alloc_child_ok)
    with r(1) c4 have "child_ok (heap s') ?c" by (rule child_ok_frame)
    with True show ?thesis by simp
  next
    case False
    with that r(2) [of c] show ?thesis by (simp add: alloc_child_heap)
  qed
  have v: "visited [?c] ?s4 s' = visited [] s s'"
    using l by (simp add: visited_def alloc_child_heap upt_conv_Cons)
  have tb: "total_boards s' = total_boards s + int (length (heap s') - ?c)"
    using r(4) l by (simp add: alloc_child_heap alloc_child_globals)
  have dp: "depth s' = depth s"
    using r(3) by (simp only: alloc_child_globals)
  have wb: "winning_board s' =
      (case winning_board s of
         Some w \<Rightarrow> Some w
       | None \<Rightarrow> find (won (heap s')) (visited [] s s'))"
    using r(5) by (simp only: v alloc_child_globals)
  have tw: "total_winning_boards s' =
      total_winning_boards s + int (length (filter (won (heap s')) (visited [] s s')))"
    using r(6) by (simp only: v alloc_child_globals)
  have bo: "boardnum (heap s' ! a) =
      (if a \<in> set [] then total_boards s else boardnum (heap s ! a))"
    if "a < length (heap s)" for a
    using that r(7) [of a] by (simp add: alloc_child_heap alloc_child_old)
  have bn: "boardnum (heap s' ! c) = total_boards s + int (c - ?c) + 1"
    if "?c \<le> c" "c < length (heap s')" for c
  proof (cases "c = ?c")
    case True
    with r(7) [of ?c] show ?thesis by (simp add: alloc_child_heap alloc_child_globals)
  next
    case False
    with that r(8) [of c] show ?thesis by (simp add: alloc_child_heap alloc_child_globals)
  qed
  from fr ch dp tb wb tw bo bn show ?thesis by (rule search_relI)
qed

subsection \<open>Entering a board\<close>

lemma enter_board_heap_eq:
  "heap (enter_board s b) = (heap s)[b := (heap s ! b)\<lparr>boardnum := total_boards s\<rparr>]"
  by (simp add: enter_board_def Let_def)

lemma enter_board_heap:
  "length (heap (enter_board s b)) = length (heap s)"
  "squares (heap (enter_board s b) ! a) = squares (heap s ! a)"
  "prev (heap (enter_board s b) ! a) = prev (heap s ! a)"
  "nextwin (heap (enter_board s b) ! a) = nextwin (heap s ! a)"
  "a \<noteq> b \<Longrightarrow> boardnum (heap (enter_board s b) ! a) = boardnum (heap s ! a)"
  "b < length (heap s) \<Longrightarrow> boardnum (heap (enter_board s b) ! b) = total_boards s"
proof -
  show "a \<noteq> b \<Longrightarrow> boardnum (heap (enter_board s b) ! a) = boardnum (heap s ! a)"
    "b < length (heap s) \<Longrightarrow> boardnum (heap (enter_board s b) ! b) = total_boards s"
    by (simp_all add: enter_board_heap_eq)
  show "length (heap (enter_board s b)) = length (heap s)"
    by (simp add: enter_board_heap_eq)
  have "heap (enter_board s b) ! a = heap s ! a \<or>
      heap (enter_board s b) ! a = (heap s ! a)\<lparr>boardnum := total_boards s\<rparr>"
    unfolding enter_board_heap_eq
    by (cases "a = b"; cases "b < length (heap s)") (simp_all add: list_update_beyond)
  then show "squares (heap (enter_board s b) ! a) = squares (heap s ! a)"
    "prev (heap (enter_board s b) ! a) = prev (heap s ! a)"
    "nextwin (heap (enter_board s b) ! a) = nextwin (heap s ! a)"
    by auto
qed

lemma enter_board_globals:
  "depth (enter_board s b) = depth s + 1"
  "total_boards (enter_board s b) = total_boards s"
  "winning_board (enter_board s b) =
     (case winning_board s of
        Some w \<Rightarrow> Some w
      | None \<Rightarrow> if won (heap s) b then Some b else None)"
  "total_winning_boards (enter_board s b) =
     total_winning_boards s + (if won (heap s) b then 1 else 0)"
  by (simp_all add: enter_board_def Let_def won_def split: option.split)

lemma search_rel_enter:
  assumes b: "b < length (heap s)" and rel: "search_rel [] (enter_board s b) s'"
  shows "search_rel [b] s (s'\<lparr>depth := depth s' - 1\<rparr>)"
proof -
  let ?s1 = "enter_board s b"
  note r = search_relD [OF rel]
  have f1: "frame (heap s) (heap ?s1)"
    by (simp add: frame_def enter_board_heap)
  then have fr: "frame (heap s) (heap s')"
    using r(1) by (rule frame_trans)
  have w: "won (heap s') b = won (heap s) b"
    using fr b by (rule won_frame)
  have v: "visited [b] s s' = b # visited [] ?s1 s'"
    by (simp add: visited_def enter_board_heap)
  have wb: "winning_board s' =
      (case winning_board s of
         Some w \<Rightarrow> Some w
       | None \<Rightarrow> find (won (heap s')) (visited [b] s s'))"
    by (simp add: r(5) enter_board_globals v w split: option.split)
  have tw: "total_winning_boards s' =
      total_winning_boards s + int (length (filter (won (heap s')) (visited [b] s s')))"
    by (simp add: r(6) enter_board_globals v w)
  let ?s2 = "s'\<lparr>depth := depth s' - 1\<rparr>"
  have h2: "heap ?s2 = heap s'" "winning_board ?s2 = winning_board s'"
    "total_winning_boards ?s2 = total_winning_boards s'" "total_boards ?s2 = total_boards s'"
    "depth ?s2 = depth s" "visited [b] s ?s2 = visited [b] s s'"
    by (simp_all add: visited_def r(3) enter_board_globals)
  have ch: "child_ok (heap ?s2) c" if "length (heap s) \<le> c" "c < length (heap ?s2)" for c
    using that r(2) [of c] by (simp add: enter_board_heap)
  have tb: "total_boards ?s2 = total_boards s + int (length (heap ?s2) - length (heap s))"
    using r(4) by (simp add: enter_board_heap enter_board_globals)
  have bo: "boardnum (heap ?s2 ! a) =
      (if a \<in> set [b] then total_boards s else boardnum (heap s ! a))"
    if "a < length (heap s)" for a
    using that b r(7) [of a] by (simp add: enter_board_heap)
  have bn: "boardnum (heap ?s2 ! c) = total_boards s + int (c - length (heap s)) + 1"
    if "length (heap s) \<le> c" "c < length (heap ?s2)" for c
    using that r(8) [of c] by (simp add: enter_board_heap enter_board_globals)
  show ?thesis
    by (rule search_relI [OF _ ch _ tb _ _ bo bn]) (simp_all only: h2 fr wb tw)
qed

subsection \<open>One step of the innermost loop\<close>

lemma try_jump_eq:
  assumes "b < length (heap s)"
  shows "try_jump rec b row col offnum (s, n) =
     bind_res (jump_test (squares (heap s ! b)) row col offnum) (\<lambda>ok.
       if \<not> ok then Inr (s, n)
       else bind_res (jump_squares (squares (heap s ! b)) row col offnum) (\<lambda>g'.
         if MAX_BOARDS \<le> n then Inl ChildOverflow
         else bind_res (rec (alloc_child s b n g') (length (heap s)))
                (\<lambda>(s', r). Inr (s', n + 1))))"
proof -
  have a: "(heap s @ [calloc_board]) ! b = heap s ! b"
    using assms by (simp add: nth_append)
  have s4: "s\<lparr>total_boards := total_boards s + 1,
        heap := (heap s)[b := (heap s ! b)
                \<lparr>nextb := (nextb (heap s ! b))[n := Some (length (heap s))]\<rparr>] @
              [\<lparr>squares = g', nextb = replicate MAX_BOARDS None, prev = Some b,
                nextwin = None, boardnum = 0\<rparr>]\<rparr> = alloc_child s b n g'" for g'
    by (simp add: alloc_child_def)
  show ?thesis
    using assms
    by (simp add: try_jump_def Let_def a list_update_append nth_append calloc_board_def s4
        cong: if_cong)
qed

lemma count_pegs_pos:
  assumes "wf_grid g" "in_bounds r c" "is_full (sq g r c)"
  shows "0 < count_pegs g"
proof -
  obtain g' where g': "sq_set g r c POS_EMPTY = Inr g'"
    using assms(2) by (simp add: sq_set_def)
  have "count_pegs g' = count_pegs g - 1"
    using assms(3) by (simp add: count_pegs_sq_set [OF assms(1) g'] is_full_simps)
  with count_pegs_nonneg [of g'] show ?thesis by simp
qed

lemma bad_child:
  assumes "tri_board g \<Longrightarrow> tri_board g'" and "count_pegs g' = count_pegs g - 1"
    and "bad k g' e"
  shows "bad (Suc k) g e"
  using assms by (auto simp add: bad_def)

lemma loop_invD:
  assumes "loop_inv s1 b g s"
  shows "b < length (heap s)" "squares (heap s ! b) = g" "wf_grid g" "search_rel [] s1 s"
proof -
  from assms have b1: "b < length (heap s1)" and g1: "squares (heap s1 ! b) = g"
    and wf: "wf_grid g" and rel: "search_rel [] s1 s"
    by (simp_all add: loop_inv_def)
  from rel have fr: "frame (heap s1) (heap s)" by (rule search_relD)
  from fr b1 show "b < length (heap s)" using frame_length by fastforce
  from fr b1 g1 show "squares (heap s ! b) = g" by (simp add: frame_squares)
  from wf rel show "wf_grid g" "search_rel [] s1 s" .
qed

lemma loop_inv_trans:
  assumes "loop_inv s1 b g s" and "search_rel [] s s'"
  shows "loop_inv s1 b g s'"
proof -
  from assms(1) have "search_rel [] s1 s" by (simp add: loop_inv_def)
  then have "search_rel [] s1 s'" using assms(2) by (rule search_rel_trans) simp
  with assms(1) show ?thesis by (simp add: loop_inv_def)
qed

lemma search_specD:
  assumes "search_spec k rec" and "c < length (heap s)" and "squares (heap s ! c) = g"
    and "wf_grid g" and "0 < count_pegs g"
  shows "outcome (rec s c) (\<lambda>(s', r). search_rel [c] s s') (bad k g)"
  using assms unfolding search_spec_def by blast

lemma try_jump_inv:
  assumes spec: "search_spec k rec" and inv: "loop_inv s1 b g s"
    and rc: "in_bounds row col" and full: "is_full (sq g row col)"
    and off: "offnum < NUM_OFFSETS"
    and budget: "m + (if jump_test g row col offnum = Inr True then 1 else 0) \<le> count_jumps g"
  shows "outcome (try_jump rec b row col offnum (s, m))
     (\<lambda>(s', m'). loop_inv s1 b g s' \<and>
        m' = m + (if jump_test g row col offnum = Inr True then 1 else 0))
     (bad (Suc k) g)"
proof -
  note I = loop_invD [OF inv]
  note eq = try_jump_eq [OF I(1), of rec row col offnum m, unfolded I(2)]
  show ?thesis
  proof (cases "jump_test g row col offnum")
    case (Inl e)
    then have e: "e = OutOfBounds"
      by (auto simp add: jump_test_eq split: if_splits)
    have "\<not> tri_board g"
      using tri_board_jump_test [OF _ rc full off, of ] Inl by auto
    with e show ?thesis by (simp add: eq Inl bind_res_def bad_def)
  next
    case (Inr ok)
    show ?thesis
    proof (cases ok)
      case False
      with Inr inv show ?thesis by (simp add: eq bind_res_def)
    next
      case True
      with Inr have jt: "jump_test g row col offnum = Inr True" by simp
      with rc off full have legal: "jump_legal g row col offnum"
        by (simp add: jump_legal_def)
      note L = jump_legalD [OF legal]
      from I(3) legal obtain g' where js: "jump_squares g row col offnum = Inr g'"
        and wf': "wf_grid g'"
        and cells: "\<And>r c. in_bounds r c \<Longrightarrow>
          sq g' r c =
            (if r = row + 2 * rowoffsets ! offnum \<and> c = col + 2 * coloffsets ! offnum
               then POS_FULL OR POS_LAST
             else if (r = row \<and> c = col) \<or>
                     (r = row + rowoffsets ! offnum \<and> c = col + coloffsets ! offnum)
               then POS_EMPTY
             else sq g r c AND NOT POS_LAST)"
        and cnt: "count_pegs g' = count_pegs g - 1"
        by (rule jump_squares_legal) blast
      have "is_full (sq g' (row + 2 * rowoffsets ! offnum) (col + 2 * coloffsets ! offnum))"
        by (simp add: cells [OF L(6)] is_full_simps)
      with wf' L(6) have pos: "0 < count_pegs g'" by (rule count_pegs_pos)
      have tri': "tri_board g'" if "tri_board g"
        using that legal js by (rule tri_board_jump)
      show ?thesis
      proof (cases "MAX_BOARDS \<le> m")
        case True
        have "\<not> tri_board g"
        proof
          assume "tri_board g"
          then have "count_jumps g \<le> MAX_BOARDS" by (rule tri_count_jumps_le)
          with budget jt True show False by simp
        qed
        with True show ?thesis by (simp add: eq jt js bind_res_def bad_def)
      next
        case False
        let ?s4 = "alloc_child s b m g'" and ?c = "length (heap s)"
        have pre: "?c < length (heap ?s4)" "squares (heap ?s4 ! ?c) = g'"
          by (simp_all add: alloc_child_heap)
        from spec pre wf' pos
        have "outcome (rec ?s4 ?c) (\<lambda>(s', r). search_rel [?c] ?s4 s') (bad k g')"
          by (rule search_specD)
        then have "outcome (rec ?s4 ?c) (\<lambda>(s', r). search_rel [?c] ?s4 s') (bad (Suc k) g)"
          by (rule outcome_weaken) (auto intro: bad_child [OF tri' cnt])
        moreover have "outcome (case x of (s', r) \<Rightarrow> Inr (s', m + 1))
            (\<lambda>(s', m'). loop_inv s1 b g s' \<and> m' = m + 1) (bad (Suc k) g)"
          if "(\<lambda>(s', r). search_rel [?c] ?s4 s') x" for x
        proof -
          obtain s' r where x: "x = (s', r)" by (cases x)
          with that have "search_rel [?c] ?s4 s'" by simp
          with I(1) I(3) legal js have "search_rel [] s s'"
            unfolding I(2) [symmetric] by (rule search_rel_alloc_call)
          with inv have "loop_inv s1 b g s'" by (rule loop_inv_trans)
          then show ?thesis by (simp add: x)
        qed
        ultimately have "outcome (bind_res (rec ?s4 ?c) (\<lambda>(s', r). Inr (s', m + 1)))
            (\<lambda>(s', m'). loop_inv s1 b g s' \<and> m' = m + 1) (bad (Suc k) g)"
          by (rule outcome_bind)
        with False show ?thesis by (simp add: eq jt js bind_res_def)
      qed
    qed
  qed
qed

subsection \<open>The three loops and the call\<close>

lemma col_body_inv:
  assumes spec: "search_spec k rec" and inv: "loop_inv s1 b g s"
    and row: "row \<in> set rows" and col: "col \<in> set cols"
    and budget: "m + (if is_full (sq g row col) then jumps_at g row col offnums else 0)
      \<le> count_jumps g"
  shows "outcome (col_body rec b row col (s, m))
     (\<lambda>(s', m'). loop_inv s1 b g s' \<and>
        m' = m + (if is_full (sq g row col) then jumps_at g row col offnums else 0))
     (bad (Suc k) g)"
proof -
  note I = loop_invD [OF inv]
  have rc: "in_bounds row col" using row col by (rule in_rows_cols)
  then have get: "sq_get (squares (heap s ! b)) row col = Inr (sq g row col)"
    by (simp add: sq_get_in I(2))
  show ?thesis
  proof (cases "is_full (sq g row col)")
    case False
    with inv show ?thesis by (simp add: col_body_def get bind_res_def)
  next
    case True
    let ?w = "\<lambda>offnum. if jump_test g row col offnum = Inr True then 1 else (0::nat)"
    have "outcome (for_loop offnums (try_jump rec b row col) (s, m))
        (\<lambda>(s', m'). loop_inv s1 b g s' \<and> m' = m + sum_list (map ?w offnums)) (bad (Suc k) g)"
    proof (rule for_loop_count [where K = "count_jumps g"])
      show "loop_inv s1 b g s" by (rule inv)
      show "m + sum_list (map ?w offnums) \<le> count_jumps g"
        using budget True by (simp add: jumps_at_def)
      show "outcome (try_jump rec b row col i (s', m'))
          (\<lambda>(s'', m''). loop_inv s1 b g s'' \<and> m'' = m' + ?w i) (bad (Suc k) g)"
        if "i \<in> set offnums" "loop_inv s1 b g s'" "m' + ?w i \<le> count_jumps g" for i s' m'
        using spec that(2) rc True in_offnums [OF that(1)] that(3) by (rule try_jump_inv)
    qed
    with True show ?thesis by (simp add: col_body_def get bind_res_def jumps_at_def)
  qed
qed

lemma row_body_inv:
  assumes spec: "search_spec k rec" and inv: "loop_inv s1 b g s"
    and row: "row \<in> set rows"
    and budget: "m + jumps_in_row g row cols \<le> count_jumps g"
  shows "outcome (row_body rec b row (s, m))
     (\<lambda>(s', m'). loop_inv s1 b g s' \<and> m' = m + jumps_in_row g row cols) (bad (Suc k) g)"
  unfolding row_body_def jumps_in_row_def
proof (rule for_loop_count [where K = "count_jumps g"])
  let ?w = "\<lambda>col. if is_full (sq g row col) then jumps_at g row col offnums else 0"
  show "loop_inv s1 b g s" by (rule inv)
  show "m + sum_list (map ?w cols) \<le> count_jumps g"
    using budget by (simp add: jumps_in_row_def)
  show "outcome (col_body rec b row i (s', m'))
      (\<lambda>(s'', m''). loop_inv s1 b g s'' \<and> m'' = m' + ?w i) (bad (Suc k) g)"
    if "i \<in> set cols" "loop_inv s1 b g s'" "m' + ?w i \<le> count_jumps g" for i s' m'
    using spec that(2) row that(1,3) by (rule col_body_inv)
qed

lemma rows_inv:
  assumes spec: "search_spec k rec" and inv: "loop_inv s1 b g s1"
  shows "outcome (for_loop rows (row_body rec b) (s1, 0))
     (\<lambda>(s', m'). loop_inv s1 b g s' \<and> m' = count_jumps g) (bad (Suc k) g)"
proof -
  let ?w = "\<lambda>row. jumps_in_row g row cols"
  have "outcome (for_loop rows (row_body rec b) (s1, 0))
      (\<lambda>(s', m'). loop_inv s1 b g s' \<and> m' = 0 + sum_list (map ?w rows)) (bad (Suc k) g)"
  proof (rule for_loop_count [where K = "count_jumps g"])
    show "loop_inv s1 b g s1" by (rule inv)
    show "0 + sum_list (map ?w rows) \<le> count_jumps g"
      by (simp add: count_jumps_def jumps_in_rows_def)
    show "outcome (row_body rec b i (s', m'))
        (\<lambda>(s'', m''). loop_inv s1 b g s'' \<and> m'' = m' + ?w i) (bad (Suc k) g)"
      if "i \<in> set rows" "loop_inv s1 b g s'" "m' + ?w i \<le> count_jumps g" for i s' m'
      using spec that(2,1,3) by (rule row_body_inv)
  qed
  then show ?thesis by (simp add: count_jumps_def jumps_in_rows_def)
qed

lemma gen_body_spec:
  assumes spec: "search_spec k rec" and b: "b < length (heap s)"
    and wf: "wf_grid (squares (heap s ! b))"
  shows "outcome (gen_body rec s b)
     (\<lambda>(s', r). search_rel [b] s s' \<and> r = (count_jumps (squares (heap s ! b)) \<noteq> 0))
     (bad (Suc k) (squares (heap s ! b)))"
proof -
  let ?g = "squares (heap s ! b)" and ?s1 = "enter_board s b"
  have inv: "loop_inv ?s1 b ?g ?s1"
    using b wf by (simp add: loop_inv_def enter_board_heap search_rel_refl)
  with spec have "outcome (for_loop rows (row_body rec b) (?s1, 0))
      (\<lambda>(s', m'). loop_inv ?s1 b ?g s' \<and> m' = count_jumps ?g) (bad (Suc k) ?g)"
    by (rule rows_inv)
  moreover have "outcome (case x of (s', n) \<Rightarrow> Inr (s'\<lparr>depth := depth s' - 1\<rparr>, n \<noteq> 0))
      (\<lambda>(s', r). search_rel [b] s s' \<and> r = (count_jumps ?g \<noteq> 0)) (bad (Suc k) ?g)"
    if "(\<lambda>(s', m'). loop_inv ?s1 b ?g s' \<and> m' = count_jumps ?g) x" for x
  proof -
    obtain s' n where x: "x = (s', n)" by (cases x)
    with that have "search_rel [] ?s1 s'" and n: "n = count_jumps ?g"
      by (simp_all add: loop_inv_def)
    with b have "search_rel [b] s (s'\<lparr>depth := depth s' - 1\<rparr>)"
      by (intro search_rel_enter)
    with n show ?thesis by (simp add: x)
  qed
  ultimately have "outcome (bind_res (for_loop rows (row_body rec b) (?s1, 0))
        (\<lambda>(s', n). Inr (s'\<lparr>depth := depth s' - 1\<rparr>, n \<noteq> 0)))
      (\<lambda>(s', r). search_rel [b] s s' \<and> r = (count_jumps ?g \<noteq> 0)) (bad (Suc k) ?g)"
    by (rule outcome_bind)
  with b show ?thesis by (simp add: gen_body_def)
qed

lemma search_spec_stub: "search_spec 0 (\<lambda>s b. Inl DepthExceeded)"
  by (simp add: search_spec_def bad_def)

text \<open>
  The search from a board \<open>b\<close> under the depth bound \<open>d\<close>: it ends in a state related to the
  first by \<open>search_rel\<close>, or hits the depth bound on a board with more than \<open>d + 1\<close> pegs, or
  leaves an array on a board that is not a board of the triangle.
\<close>

lemma generate_boards_spec:
  fixes s :: state
  assumes "b < length (heap s)" and "wf_grid (squares (heap s ! b))"
  shows "outcome (generate_boards d s b)
     (\<lambda>(s', r). search_rel [b] s s' \<and> r = (count_jumps (squares (heap s ! b)) \<noteq> 0))
     (bad (Suc d) (squares (heap s ! b)))"
  using assms
proof (induction d arbitrary: s b)
  case 0
  with search_spec_stub show ?case by (simp only: generate_boards.simps) (rule gen_body_spec)
next
  case (Suc d)
  have "search_spec (Suc d) (generate_boards d)"
    unfolding search_spec_def
  proof (intro allI impI)
    fix s :: state and c
    assume "c < length (heap s)" "wf_grid (squares (heap s ! c))"
    then have "outcome (generate_boards d s c)
        (\<lambda>(s', r). search_rel [c] s s' \<and> r = (count_jumps (squares (heap s ! c)) \<noteq> 0))
        (bad (Suc d) (squares (heap s ! c)))"
      by (rule Suc.IH)
    then show "outcome (generate_boards d s c) (\<lambda>(s', r). search_rel [c] s s')
        (bad (Suc d) (squares (heap s ! c)))"
      by (rule outcome_weaken) auto
  qed
  with Suc.prems show ?case by (simp only: generate_boards.simps) (rule gen_body_spec)
qed

lemma search_spec_generate_boards: "search_spec (Suc d) (generate_boards d)"
  unfolding search_spec_def
proof (intro allI impI)
  fix s :: state and c
  assume "c < length (heap s)" "wf_grid (squares (heap s ! c))"
  then have "outcome (generate_boards d s c)
      (\<lambda>(s', r). search_rel [c] s s' \<and> r = (count_jumps (squares (heap s ! c)) \<noteq> 0))
      (bad (Suc d) (squares (heap s ! c)))"
    by (rule generate_boards_spec)
  then show "outcome (generate_boards d s c) (\<lambda>(s', r). search_rel [c] s s')
      (bad (Suc d) (squares (heap s ! c)))"
    by (rule outcome_weaken) auto
qed

subsection \<open>The children the loops make\<close>

text \<open>
  A loop whose body adds the items \<open>f i\<close> to a list kept beside the loop's variables.
\<close>

lemma for_loop_ghost:
  assumes "for_loop xs body a = Inr a'" and "I ys a"
    and step: "\<And>i a a' ys. i \<in> set xs \<Longrightarrow> I ys a \<Longrightarrow> body i a = Inr a' \<Longrightarrow> I (ys @ f i) a'"
  shows "I (ys @ concat (map f xs)) a'"
  using assms
proof (induction xs arbitrary: a ys)
  case Nil
  then show ?case by simp
next
  case (Cons i xs)
  from Cons.prems(1) obtain a1 where a1: "body i a = Inr a1"
    and rest: "for_loop xs body a1 = Inr a'"
    by (cases "body i a") (simp_all add: bind_res_def)
  have "I (ys @ f i) a1" using Cons.prems(2) a1 by (intro Cons.prems(3)) simp_all
  with rest have "I ((ys @ f i) @ concat (map f xs)) a'"
    by (rule Cons.IH) (rule Cons.prems(3), simp_all)
  then show ?case by simp
qed

lemma keepsD:
  assumes "keeps b h h'"
  shows "length h \<le> length h'"
    and "a < length h \<Longrightarrow> squares (h' ! a) = squares (h ! a)"
    and "a < length h \<Longrightarrow> prev (h' ! a) = prev (h ! a)"
    and "a < length h \<Longrightarrow> a \<noteq> b \<Longrightarrow> nextb (h' ! a) = nextb (h ! a)"
    and "length h \<le> a \<Longrightarrow> a < length h' \<Longrightarrow>
         \<exists>p. prev (h' ! a) = Some p \<and> (p = b \<or> length h \<le> p)"
  using assms by (simp_all add: keeps_def)

lemma alloc_child_nextb:
  assumes "a < length (heap s)"
  shows "nextb (heap (alloc_child s b n g') ! a) =
     (if a = b then (nextb (heap s ! b))[n := Some (length (heap s))] else nextb (heap s ! a))"
  using assms by (simp add: alloc_child_def nth_append)

lemma enter_board_nextb: "nextb (heap (enter_board s b) ! a) = nextb (heap s ! a)"
proof -
  have "heap (enter_board s b) ! a = heap s ! a \<or>
      heap (enter_board s b) ! a = (heap s ! a)\<lparr>boardnum := total_boards s\<rparr>"
    unfolding enter_board_heap_eq
    by (cases "a = b"; cases "b < length (heap s)") (simp_all add: list_update_beyond)
  then show ?thesis by auto
qed

lemma kids_inv_enter:
  assumes "b < length (heap s)"
  shows "kids_inv (heap s) b [] (enter_board s b, 0)"
  using assms by (auto simp add: kids_inv_def keeps_def enter_board_heap enter_board_nextb)

lemma nth_child_keeps:
  assumes "nth_child h h1 b k j" and "keeps c h1 h2" and "b < length h1" and "b \<noteq> c"
  shows "nth_child h h2 b k j"
proof -
  from assms(1) obtain a where a: "nextb (h1 ! b) ! k = Some a" "length h \<le> a" "a < length h1"
    "prev (h1 ! a) = Some b"
    "jump_squares (squares (h ! b)) (fst j) (fst (snd j)) (snd (snd j)) = Inr (squares (h1 ! a))"
    unfolding nth_child_def by blast
  note K = keepsD [OF assms(2)]
  have "nextb (h2 ! b) ! k = Some a" using a(1) K(4) [OF assms(3,4)] by simp
  moreover have "a < length h2" using a(3) K(1) by simp
  moreover have "prev (h2 ! a) = Some b" using a(3,4) K(3) by simp
  moreover have "squares (h2 ! a) = squares (h1 ! a)" using a(3) K(2) by simp
  ultimately show ?thesis unfolding nth_child_def using a(2,5) by auto
qed

lemma try_jump_kids:
  fixes s :: state
  assumes rec: "\<And>s c s' r. rec s c = Inr (s', r) \<Longrightarrow> keeps c (heap s) (heap s')"
    and inv: "kids_inv h b js (s, n)"
    and rc: "in_bounds row col" and full: "is_full (sq (squares (h ! b)) row col)"
    and off: "offnum < NUM_OFFSETS"
    and run: "try_jump rec b row col offnum (s, n) = Inr a'"
  shows "kids_inv h b
     (js @ (if jump_legal (squares (h ! b)) row col offnum then [(row, col, offnum)] else [])) a'"
proof -
  let ?g = "squares (h ! b)"
  from inv have b: "b < length h" and K: "keeps b h (heap s)"
    and len: "length (nextb (heap s ! b)) = length (nextb (h ! b))"
    and n: "n = length js" "n \<le> MAX_BOARDS"
    and kids: "\<And>k. k < length js \<Longrightarrow> k < length (nextb (h ! b)) \<Longrightarrow>
        nth_child h (heap s) b k (js ! k)"
    and rest: "\<And>k. length js \<le> k \<Longrightarrow> k < length (nextb (h ! b)) \<Longrightarrow>
        nextb (heap s ! b) ! k = nextb (h ! b) ! k"
    and only: "\<And>a. length js \<le> length (nextb (h ! b)) \<Longrightarrow> length h \<le> a \<Longrightarrow>
        a < length (heap s) \<Longrightarrow> prev (heap s ! a) = Some b \<Longrightarrow>
        \<exists>k<length js. nextb (heap s ! b) ! k = Some a"
    by (simp_all add: kids_inv_def)
  note KD = keepsD [OF K]
  from b KD(1) have bs: "b < length (heap s)" by simp
  have g: "squares (heap s ! b) = ?g" using b by (rule KD(2))
  note eq = try_jump_eq [OF bs, of rec row col offnum n, unfolded g]
  have legal: "jump_legal ?g row col offnum = (jump_test ?g row col offnum = Inr True)"
    using rc full off by (simp add: jump_legal_def)
  show ?thesis
  proof (cases "jump_test ?g row col offnum = Inr True")
    case False
    with run eq have "a' = (s, n)"
      by (cases "jump_test ?g row col offnum") (auto simp add: bind_res_def)
    with inv False legal show ?thesis by simp
  next
    case True
    let ?newb = "length (heap s)"
    from run eq True obtain g' where g': "jump_squares ?g row col offnum = Inr g'"
      by (cases "jump_squares ?g row col offnum") (simp_all add: bind_res_def)
    from run eq True g' have nlt: "n < MAX_BOARDS"
      by (cases "MAX_BOARDS \<le> n") (simp_all add: bind_res_def)
    let ?sa = "alloc_child s b n g'"
    from run eq True g' nlt obtain s5 r where call: "rec ?sa ?newb = Inr (s5, r)"
      and a': "a' = (s5, n + 1)"
      by (cases "rec ?sa ?newb") (auto simp add: bind_res_def)
    from call have K5: "keeps ?newb (heap ?sa) (heap s5)" by (rule rec)
    note K5D = keepsD [OF K5]
    have lsa: "length (heap ?sa) = Suc ?newb" by (simp add: alloc_child_heap)
    have bsa: "b < length (heap ?sa)" "b \<noteq> ?newb" using bs lsa by simp_all
    have nb5: "nextb (heap s5 ! b) = (nextb (heap s ! b))[n := Some ?newb]"
      using K5D(4) [OF bsa] bs by (simp add: alloc_child_nextb)
    have keeps5: "keeps b h (heap s5)"
      unfolding keeps_def
    proof (intro conjI allI impI)
      show "length h \<le> length (heap s5)" using KD(1) K5D(1) lsa by simp
    next
      fix a assume a: "a < length h"
      with KD(1) have as: "a < length (heap s)" by simp
      then have asa: "a < length (heap ?sa)" "a \<noteq> ?newb" using lsa by simp_all
      show "squares (heap s5 ! a) = squares (h ! a)"
        using K5D(2) [OF asa(1)] KD(2) [OF a] as by (simp add: alloc_child_old)
      show "prev (heap s5 ! a) = prev (h ! a)"
        using K5D(3) [OF asa(1)] KD(3) [OF a] as by (simp add: alloc_child_old)
      show "nextb (heap s5 ! a) = nextb (h ! a)" if "a \<noteq> b"
        using K5D(4) [OF asa] KD(4) [OF a that] as that by (simp add: alloc_child_nextb)
    next
      fix a assume a: "length h \<le> a \<and> a < length (heap s5)"
      consider "a < ?newb" | "a = ?newb" | "length (heap ?sa) \<le> a" using lsa by linarith
      then show "\<exists>p. prev (heap s5 ! a) = Some p \<and> (p = b \<or> length h \<le> p)"
      proof cases
        case 1
        then have "prev (heap s5 ! a) = prev (heap s ! a)"
          using K5D(3) [of a] lsa by (simp add: alloc_child_old)
        with KD(5) [of a] a 1 show ?thesis by simp
      next
        case 2
        then show ?thesis using K5D(3) [of a] lsa by (simp add: alloc_child_heap)
      next
        case 3
        with K5D(5) [of a] a KD(1) lsa show ?thesis by auto
      qed
    qed
    have new: "nth_child h (heap s5) b n (row, col, offnum)" if "n < length (nextb (h ! b))"
      unfolding nth_child_def
    proof (intro exI [of _ ?newb] conjI)
      show "nextb (heap s5 ! b) ! n = Some ?newb" using that len by (simp add: nb5)
      show "length h \<le> ?newb" by (rule KD(1))
      show "?newb < length (heap s5)" using K5D(1) lsa by simp
      have "prev (heap s5 ! ?newb) = prev (heap ?sa ! ?newb)"
        using lsa by (intro K5D(3)) simp
      then show "prev (heap s5 ! ?newb) = Some b" by (simp add: alloc_child_heap)
      have "squares (heap s5 ! ?newb) = squares (heap ?sa ! ?newb)"
        using lsa by (intro K5D(2)) simp
      then show "jump_squares ?g (fst (row, col, offnum)) (fst (snd (row, col, offnum)))
          (snd (snd (row, col, offnum))) = Inr (squares (heap s5 ! ?newb))"
        using g' by (simp add: alloc_child_heap)
    qed
    have old: "nth_child h (heap s5) b k (js ! k)"
      if "k < length js" "k < length (nextb (h ! b))" for k
    proof -
      have "nth_child h (heap s) b k (js ! k)" using that by (rule kids)
      then have "nth_child h (heap ?sa) b k (js ! k)"
        unfolding nth_child_def using that n lsa bs
        by (auto simp add: alloc_child_old alloc_child_nextb)
      then show ?thesis using K5 bsa by (rule nth_child_keeps)
    qed
    have "kids_inv h b (js @ [(row, col, offnum)]) (s5, n + 1)"
      unfolding kids_inv_def
    proof (simp only: prod.case, intro conjI allI impI)
      show "b < length h" by (rule b)
      show "keeps b h (heap s5)" by (rule keeps5)
      show "length (nextb (heap s5 ! b)) = length (nextb (h ! b))" using len by (simp add: nb5)
      show "n + 1 = length (js @ [(row, col, offnum)])" using n by simp
      show "n + 1 \<le> MAX_BOARDS" using nlt by simp
    next
      fix k assume "k < length (js @ [(row, col, offnum)])" "k < length (nextb (h ! b))"
      then show "nth_child h (heap s5) b k ((js @ [(row, col, offnum)]) ! k)"
        using old [of k] new n by (cases "k = n") (simp_all add: nth_append)
    next
      fix k assume "length (js @ [(row, col, offnum)]) \<le> k \<and> k < length (nextb (h ! b))"
      then show "nextb (heap s5 ! b) ! k = nextb (h ! b) ! k"
        using rest [of k] n by (simp add: nb5)
    next
      fix a
      assume a: "length (js @ [(row, col, offnum)]) \<le> length (nextb (h ! b)) \<and>
        length h \<le> a \<and> a < length (heap s5) \<and> prev (heap s5 ! a) = Some b"
      then have nl: "n < length (nextb (heap s ! b))" using n len by simp
      consider "a < ?newb" | "a = ?newb" | "length (heap ?sa) \<le> a" using lsa by linarith
      then show "\<exists>k<length (js @ [(row, col, offnum)]). nextb (heap s5 ! b) ! k = Some a"
      proof cases
        case 1
        then have "prev (heap s5 ! a) = prev (heap s ! a)"
          using K5D(3) [of a] lsa by (simp add: alloc_child_old)
        with a 1 only [of a] obtain k where "k < length js" "nextb (heap s ! b) ! k = Some a"
          by auto
        then show ?thesis using n by (intro exI [of _ k]) (simp add: nb5)
      next
        case 2
        then show ?thesis using n nl by (intro exI [of _ n]) (simp add: nb5)
      next
        case 3
        with K5D(5) [of a] a bs lsa show ?thesis by auto
      qed
    qed
    with a' True legal show ?thesis by simp
  qed
qed

lemma col_body_kids:
  fixes s :: state
  assumes rec: "\<And>s c s' r. rec s c = Inr (s', r) \<Longrightarrow> keeps c (heap s) (heap s')"
    and inv: "kids_inv h b js (s, n)"
    and rc: "in_bounds row col"
    and run: "col_body rec b row col (s, n) = Inr a'"
  shows "kids_inv h b
     (js @ concat (map (\<lambda>offnum.
        if jump_legal (squares (h ! b)) row col offnum then [(row, col, offnum)] else [])
        offnums)) a'"
proof -
  let ?g = "squares (h ! b)"
  from inv have b: "b < length h" and K: "keeps b h (heap s)" by (simp_all add: kids_inv_def)
  have g: "squares (heap s ! b) = ?g" using b by (rule keepsD(2) [OF K])
  show ?thesis
  proof (cases "is_full (sq ?g row col)")
    case False
    then have e: "concat (map (\<lambda>offnum.
        if jump_legal ?g row col offnum then [(row, col, offnum)] else []) offnums) = []"
      by (simp add: jump_legal_def)
    from run False rc have a': "a' = (s, n)"
      by (simp add: col_body_def g sq_get_in bind_res_def)
    show ?thesis unfolding e a' using inv by simp
  next
    case True
    with run rc have loop: "for_loop offnums (try_jump rec b row col) (s, n) = Inr a'"
      by (simp add: col_body_def g sq_get_in bind_res_def)
    from loop inv show ?thesis
    proof (rule for_loop_ghost)
      fix i a a'' ys
      assume "i \<in> set offnums" "kids_inv h b ys a" "try_jump rec b row col i a = Inr a''"
      then show "kids_inv h b
          (ys @ (if jump_legal ?g row col i then [(row, col, i)] else [])) a''"
        using rec rc True in_offnums [of i] by (cases a) (rule try_jump_kids, auto)
    qed
  qed
qed

lemma gen_body_kids:
  fixes s :: state
  assumes rec: "\<And>s c s' r. rec s c = Inr (s', r) \<Longrightarrow> keeps c (heap s) (heap s')"
    and run: "gen_body rec s b = Inr (s', r)"
  shows "kids_inv (heap s) b (jumps_of (squares (heap s ! b)))
           (s', length (jumps_of (squares (heap s ! b))))"
    and "r = (jumps_of (squares (heap s ! b)) \<noteq> [])"
proof -
  let ?g = "squares (heap s ! b)"
  from run have b: "b < length (heap s)"
    by (cases "length (heap s) \<le> b") (simp_all add: gen_body_def)
  with run obtain s1 n where loop: "for_loop rows (row_body rec b) (enter_board s b, 0) = Inr (s1, n)"
    and s': "s' = s1\<lparr>depth := depth s1 - 1\<rparr>" and r: "r = (n \<noteq> 0)"
    by (cases "for_loop rows (row_body rec b) (enter_board s b, 0)")
      (auto simp add: gen_body_def bind_res_def)
  have "kids_inv (heap s) b ([] @ concat (map (\<lambda>row. concat (map (\<lambda>col. concat (map (\<lambda>offnum.
       if jump_legal ?g row col offnum then [(row, col, offnum)] else []) offnums)) cols)) rows))
       (s1, n)"
    using loop kids_inv_enter [OF b]
  proof (rule for_loop_ghost)
    fix row a a' ys
    assume row: "row \<in> set rows" and I: "kids_inv (heap s) b ys a"
      and body: "row_body rec b row a = Inr a'"
    from body have "for_loop cols (col_body rec b row) a = Inr a'" by (simp add: row_body_def)
    then show "kids_inv (heap s) b (ys @ concat (map (\<lambda>col. concat (map (\<lambda>offnum.
       if jump_legal ?g row col offnum then [(row, col, offnum)] else []) offnums)) cols)) a'"
      using I
    proof (rule for_loop_ghost)
      fix col a a' ys
      assume "col \<in> set cols" "kids_inv (heap s) b ys a" "col_body rec b row col a = Inr a'"
      then show "kids_inv (heap s) b (ys @ concat (map (\<lambda>offnum.
         if jump_legal ?g row col offnum then [(row, col, offnum)] else []) offnums)) a'"
        using rec row by (cases a) (rule col_body_kids, auto intro: in_rows_cols)
    qed
  qed
  then have I: "kids_inv (heap s) b (jumps_of ?g) (s1, n)" by (simp add: jumps_of_def)
  then have n: "n = length (jumps_of ?g)" by (simp add: kids_inv_def)
  from I show "kids_inv (heap s) b (jumps_of ?g) (s', length (jumps_of ?g))"
    by (simp add: kids_inv_def s' n)
  from r n show "r = (jumps_of ?g \<noteq> [])" by simp
qed

lemma generate_boards_keeps:
  "generate_boards d s b = Inr (s', r) \<Longrightarrow> keeps b (heap s) (heap s')"
proof (induction d arbitrary: s b s' r)
  case 0
  then have "gen_body (\<lambda>s b. Inl DepthExceeded) s b = Inr (s', r)" by simp
  then have "kids_inv (heap s) b (jumps_of (squares (heap s ! b)))
           (s', length (jumps_of (squares (heap s ! b))))"
    by (rule gen_body_kids [rotated]) simp
  then show ?case by (simp add: kids_inv_def)
next
  case (Suc d)
  then have "gen_body (generate_boards d) s b = Inr (s', r)" by simp
  then have "kids_inv (heap s) b (jumps_of (squares (heap s ! b)))
           (s', length (jumps_of (squares (heap s ! b))))"
    by (rule gen_body_kids [rotated]) (rule Suc.IH)
  then show ?case by (simp add: kids_inv_def)
qed

lemma generate_boards_kids:
  assumes "generate_boards d s b = Inr (s', r)"
  shows "kids_inv (heap s) b (jumps_of (squares (heap s ! b)))
           (s', length (jumps_of (squares (heap s ! b))))"
    and "r = (jumps_of (squares (heap s ! b)) \<noteq> [])"
proof -
  obtain rec where rec: "\<And>s c s' r. rec s c = Inr (s', r) \<Longrightarrow> keeps c (heap s) (heap s')"
    and run: "gen_body rec s b = Inr (s', r)"
  proof (cases d)
    case 0
    with assms have "gen_body (\<lambda>s b. Inl DepthExceeded) s b = Inr (s', r)" by simp
    then show thesis by (rule that [rotated]) simp
  next
    case (Suc d')
    with assms have "gen_body (generate_boards d') s b = Inr (s', r)" by simp
    then show thesis by (rule that [rotated]) (rule generate_boards_keeps)
  qed
  from rec run show "kids_inv (heap s) b (jumps_of (squares (heap s ! b)))
           (s', length (jumps_of (squares (heap s ! b))))"
    by (rule gen_body_kids)
  from rec run show "r = (jumps_of (squares (heap s ! b)) \<noteq> [])" by (rule gen_body_kids)
qed

lemma set_jumps_of:
  "(row, col, offnum) \<in> set (jumps_of g) \<longleftrightarrow> jump_legal g row col offnum"
proof -
  have "row \<in> set rows \<and> col \<in> set cols \<and> offnum \<in> set offnums"
    if "jump_legal g row col offnum"
  proof -
    from that have "in_bounds row col" "offnum < NUM_OFFSETS" by (simp_all add: jump_legal_def)
    then show ?thesis
      by (auto simp add: rows_def cols_def offnums_def in_bounds_def image_iff
          intro: bexI [of _ "nat row"] bexI [of _ "nat col"])
  qed
  then show ?thesis by (auto simp add: jumps_of_def split: if_splits)
qed

text \<open>
  On a board of the triangle the cell two steps away from a peg, beyond a second peg, is
  inside the array.
\<close>

lemma tri_board_landing:
  assumes tri: "tri_board g" and ib: "in_bounds row col" and full: "is_full (sq g row col)"
    and off: "offnum < NUM_OFFSETS"
  shows "in_bounds (row + rowoffsets ! offnum) (col + coloffsets ! offnum)"
    and "is_full (sq g (row + rowoffsets ! offnum) (col + coloffsets ! offnum)) \<Longrightarrow>
         in_bounds (row + 2 * rowoffsets ! offnum) (col + 2 * coloffsets ! offnum)"
proof -
  let ?ro = "rowoffsets ! offnum" and ?co = "coloffsets ! offnum"
  note oc = offsets_cases [OF off]
  from tri ib full have b: "2 \<le> row \<and> row \<le> 6 \<and> 2 \<le> col \<and> col \<le> 10"
    by (rule tri_board_full_bounds)
  with oc show mid: "in_bounds (row + ?ro) (col + ?co)"
    by (auto simp add: in_bounds_def NUM_ROWS_def NUM_COLS_def)
  assume "is_full (sq g (row + ?ro) (col + ?co))"
  with tri mid have "2 \<le> row + ?ro \<and> row + ?ro \<le> 6 \<and> 2 \<le> col + ?co \<and> col + ?co \<le> 10"
    by (rule tri_board_full_bounds)
  with oc show "in_bounds (row + 2 * ?ro) (col + 2 * ?co)"
    by (auto simp add: in_bounds_def NUM_ROWS_def NUM_COLS_def)
qed

lemma tri_jump_legal_iff:
  assumes tri: "tri_board g"
  shows "jump_legal g row col offnum \<longleftrightarrow>
     in_bounds row col \<and> offnum < NUM_OFFSETS \<and> is_full (sq g row col) \<and>
     is_full (sq g (row + rowoffsets ! offnum) (col + coloffsets ! offnum)) \<and>
     is_empty (sq g (row + 2 * rowoffsets ! offnum) (col + 2 * coloffsets ! offnum)) \<and>
     \<not> is_invalid (sq g (row + rowoffsets ! offnum) (col + coloffsets ! offnum)) \<and>
     \<not> is_invalid (sq g (row + 2 * rowoffsets ! offnum) (col + 2 * coloffsets ! offnum))"
proof (cases "in_bounds row col \<and> offnum < NUM_OFFSETS \<and> is_full (sq g row col)")
  case False
  then show ?thesis by (auto simp add: jump_legal_def)
next
  case True
  let ?ro = "rowoffsets ! offnum" and ?co = "coloffsets ! offnum"
  from True have ib: "in_bounds row col" and off: "offnum < NUM_OFFSETS"
    and full: "is_full (sq g row col)" by simp_all
  note B = tri_board_landing [OF tri ib full off]
  have adj: "\<not> is_invalid (sq g (row + ?ro) (col + ?co))"
    if "is_full (sq g (row + ?ro) (col + ?co))"
    using that by (auto simp add: is_invalid_def is_full_simps)
  have landing: "\<not> is_invalid (sq g (row + 2 * ?ro) (col + 2 * ?co))"
    if "is_empty (sq g (row + 2 * ?ro) (col + 2 * ?co))"
    using that by (simp add: is_invalid_def is_empty_def POS_defs)
  from True B adj landing show ?thesis
    by (auto simp add: jump_legal_def jump_test_True is_empty_def)
qed

subsection \<open>Runs on the example boards\<close>

lemma wf_endgame_board: "wf_grid endgame_board"
  by (simp add: wf_grid_def endgame_board_def NUM_ROWS_def NUM_COLS_def)

lemma endgame_run:
  "generate_boards 1 (init_state endgame_board) 0 = Inr (endgame_final, True)"
  by code_simp

lemma play_reachable:
  "play g ms = Some g' \<Longrightarrow> reachable_from g0 g \<Longrightarrow> reachable_from g0 g'"
proof (induction g ms rule: play.induct)
  case (1 g)
  then show ?case by simp
next
  case (2 g row col offnum ms)
  from "2.prems"(1) have legal: "jump_legal g row col offnum"
    by (simp split: if_splits)
  with "2.prems"(1) obtain g1 where g1: "jump_squares g row col offnum = Inr g1"
    and rest: "play g1 ms = Some g'"
    by (auto split: sum.splits)
  from "2.prems"(2) legal g1 have "reachable_from g0 g1" by (rule reachable_from.jump)
  with "2.IH" legal g1 rest show ?case by simp
qed

lemma endgame_play: "play initial_board_1 first_line = Some endgame_board"
  by code_simp

lemma reachable_endgame: "reachable_from initial_board_1 endgame_board"
  using endgame_play reachable_from.root by (rule play_reachable)

lemma tri_endgame_board: "tri_board endgame_board"
  using reachable_endgame by (rule reachable_tri_board)

lemma first_jump: "jump_squares initial_board_1 6 4 1 = Inr after_first_jump"
  by code_simp

lemma reachable_after_first_jump: "reachable_from initial_board_1 after_first_jump"
  using reachable_from.root legal_initial_6_4_1 first_jump by (rule reachable_from.jump)

lemma init_state_simps:
  "heap (init_state g) = [root_board g]" "squares (root_board g) = g"
  "prev (root_board g) = None" "nextwin (root_board g) = None"
  "winning_board (init_state g) = None" "total_winning_boards (init_state g) = 0"
  "total_boards (init_state g) = 1" "depth (init_state g) = 0"
  by (simp_all add: init_state_def root_board_def)

subsection \<open>What a finished search says\<close>

lemma generate_boards_Inr:
  fixes s :: state
  assumes "generate_boards d s b = Inr (s', r)" and "b < length (heap s)"
    and "wf_grid (squares (heap s ! b))"
  shows "search_rel [b] s s'" "r = (count_jumps (squares (heap s ! b)) \<noteq> 0)"
  using generate_boards_spec [OF assms(2,3), of d] assms(1) by simp_all

lemma child_ok_pegs:
  assumes "child_ok h c"
  obtains p row col offnum where "prev (h ! c) = Some p" "p < c" "nextwin (h ! c) = None"
    "wf_grid (squares (h ! p))" "jump_legal (squares (h ! p)) row col offnum"
    "jump_squares (squares (h ! p)) row col offnum = Inr (squares (h ! c))"
    "count_pegs (squares (h ! c)) = count_pegs (squares (h ! p)) - 1"
    "wf_grid (squares (h ! c))"
proof -
  from assms obtain p row col offnum where
    p: "prev (h ! c) = Some p" "p < c" "nextwin (h ! c) = None" "wf_grid (squares (h ! p))"
      "jump_legal (squares (h ! p)) row col offnum"
      "jump_squares (squares (h ! p)) row col offnum = Inr (squares (h ! c))"
    unfolding child_ok_def by blast
  from p(4,5) obtain g' where "jump_squares (squares (h ! p)) row col offnum = Inr g'"
    "wf_grid g'" "count_pegs g' = count_pegs (squares (h ! p)) - 1"
    by (rule jump_squares_legal)
  with p(6) have "count_pegs (squares (h ! c)) = count_pegs (squares (h ! p)) - 1"
    "wf_grid (squares (h ! c))" by simp_all
  with p show thesis by (rule that)
qed

subsection \<open>A run that goes on after a win\<close>

lemma late_play: "play initial_board_1 (take 10 first_line) = Some late_board"
  by code_simp

lemma reachable_late: "reachable_from initial_board_1 late_board"
  using late_play reachable_from.root by (rule play_reachable)



lemma late_children:
  "(case generate_boards 3 (init_state late_board) 0 of
      Inr (s', r) \<Rightarrow> take 3 (nextb (heap s' ! 0)) = [Some 1, Some 5, None]
    | Inl e \<Rightarrow> False)"
  by code_simp

lemma late_jumps: "jumps_of late_board = [(4, 8, 2), (6, 8, 0)]"
  by code_simp

section \<open>The path printed by \<^verbatim>\<open>main\<close>\<close>

subsection \<open>Parent chains\<close>

lemma parent_chain_None: "prev (h ! a) = None \<Longrightarrow> parent_chain h a = [a]"
  by (simp add: parent_chain.simps [of h a])

lemma parent_chain_Some:
  "prev (h ! a) = Some p \<Longrightarrow> p < a \<Longrightarrow> parent_chain h a = a # parent_chain h p"
  by (simp add: parent_chain.simps [of h a])

lemma parent_chain_hd: "hd (parent_chain h a) = a" "parent_chain h a \<noteq> []"
  by (simp_all add: parent_chain.simps [of h a] split: option.split)

lemma parent_chain_cong:
  assumes "\<And>a. prev (h' ! a) = prev (h ! a)"
  shows "parent_chain h' a = parent_chain h a"
proof (induction a rule: less_induct)
  case (less a)
  show ?case
  proof (cases "prev (h ! a)")
    case None
    then show ?thesis by (simp add: parent_chain_None assms)
  next
    case (Some p)
    show ?thesis
    proof (cases "p < a")
      case True
      with Some less.IH show ?thesis by (simp add: parent_chain_Some assms)
    next
      case False
      with Some show ?thesis
        by (simp add: parent_chain.simps [of h a] parent_chain.simps [of h' a] assms)
    qed
  qed
qed

lemma parent_chain_le: "x \<in> set (parent_chain h a) \<Longrightarrow> x \<le> a"
proof (induction h a rule: parent_chain.induct)
  case (1 h a)
  show ?case
  proof (cases "prev (h ! a)")
    case None
    with "1.prems" show ?thesis by (simp add: parent_chain_None)
  next
    case (Some p)
    show ?thesis
    proof (cases "p < a")
      case True
      with Some "1.prems" "1.IH" show ?thesis by (fastforce simp add: parent_chain_Some)
    next
      case False
      with Some "1.prems" show ?thesis by (simp add: parent_chain.simps [of h a])
    qed
  qed
qed

lemma parent_chain_length: "length (parent_chain h a) \<le> Suc a"
proof (induction h a rule: parent_chain.induct)
  case (1 h a)
  show ?case
  proof (cases "prev (h ! a)")
    case None
    then show ?thesis by (simp add: parent_chain_None)
  next
    case (Some p)
    show ?thesis
    proof (cases "p < a")
      case True
      with Some "1.IH" have "length (parent_chain h p) \<le> Suc p" by simp
      with Some True show ?thesis by (simp add: parent_chain_Some)
    next
      case False
      with Some show ?thesis by (simp add: parent_chain.simps [of h a])
    qed
  qed
qed

lemma parent_path_snoc:
  "parent_path h (xs @ [a]) \<longleftrightarrow> parent_path h xs \<and> (xs \<noteq> [] \<longrightarrow> prev (h ! a) = Some (last xs))"
  by (induction h xs rule: parent_path.induct) auto

lemma tree_heapD:
  assumes "tree_heap h" "a < length h"
  shows "nextwin (h ! a) = None" "prev (h ! a) = None \<Longrightarrow> a = 0"
    "prev (h ! a) = Some p \<Longrightarrow> p < a"
  using assms by (auto simp add: tree_heap_def split: option.splits)

text \<open>In the store of a search the chain from a board ends at the root.\<close>

lemma tree_parent_chain:
  assumes "tree_heap h"
  shows "a < length h \<Longrightarrow>
    parent_path h (rev (parent_chain h a)) \<and> last (parent_chain h a) = 0"
proof (induction a rule: less_induct)
  case (less a)
  show ?case
  proof (cases "prev (h ! a)")
    case None
    with assms less.prems have "a = 0" by (simp add: tree_heapD)
    with None show ?thesis by (simp add: parent_chain_None)
  next
    case (Some p)
    with assms less.prems have p: "p < a" by (simp add: tree_heapD)
    with less.prems have "p < length h" by simp
    with less.IH p have IH: "parent_path h (rev (parent_chain h p))"
      "last (parent_chain h p) = 0" by simp_all
    have pc: "parent_chain h a = a # parent_chain h p"
      using Some p by (rule parent_chain_Some)
    have "last (rev (parent_chain h p)) = p"
      by (simp add: last_rev parent_chain_hd)
    with IH Some show ?thesis
      by (simp add: pc parent_path_snoc parent_chain_hd)
  qed
qed

subsection \<open>The two loops\<close>

lemma set_nextwin:
  fixes h :: "board list"
  shows "length (h[p := (h ! p)\<lparr>nextwin := v\<rparr>]) = length h"
    "prev (h[p := (h ! p)\<lparr>nextwin := v\<rparr>] ! a) = prev (h ! a)"
    "squares (h[p := (h ! p)\<lparr>nextwin := v\<rparr>] ! a) = squares (h ! a)"
    "p < length h \<Longrightarrow> nextwin (h[p := (h ! p)\<lparr>nextwin := v\<rparr>] ! p) = v"
    "a \<noteq> p \<Longrightarrow> nextwin (h[p := (h ! p)\<lparr>nextwin := v\<rparr>] ! a) = nextwin (h ! a)"
proof -
  let ?h1 = "h[p := (h ! p)\<lparr>nextwin := v\<rparr>]"
  show "length ?h1 = length h" by simp
  have "?h1 ! a = h ! a \<or> ?h1 ! a = (h ! a)\<lparr>nextwin := v\<rparr>"
    by (cases "a = p"; cases "p < length h") (simp_all add: list_update_beyond)
  then show "prev (?h1 ! a) = prev (h ! a)" "squares (?h1 ! a) = squares (h ! a)" by auto
  show "p < length h \<Longrightarrow> nextwin (?h1 ! p) = v" by simp
  show "a \<noteq> p \<Longrightarrow> nextwin (?h1 ! a) = nextwin (h ! a)" by simp
qed

lemma linked_update:
  "p \<notin> set cs \<Longrightarrow> linked (h[p := (h ! p)\<lparr>nextwin := v\<rparr>]) cs = linked h cs"
  by (induction h cs rule: linked.induct) (auto simp add: set_nextwin)

lemma walk_forward_linked:
  assumes "linked h cs" and "cs \<noteq> []" and "length cs < n"
  shows "walk_forward n h (Some (hd cs)) out = Inr (out @ cs)"
  using assms
proof (induction cs arbitrary: n out)
  case Nil
  then show ?case by simp
next
  case (Cons x cs)
  from Cons.prems(3) obtain n' where n: "n = Suc n'" and l: "length cs < n'"
    by (cases n) auto
  show ?case
  proof (cases cs)
    case Nil
    with l obtain n'' where "n' = Suc n''" by (cases n') auto
    with Cons.prems(1) Nil n show ?thesis by simp
  next
    case (Cons y zs)
    with Cons.prems(1) have x: "x < length h" "nextwin (h ! x) = Some y" "linked h cs"
      by simp_all
    from Cons.IH [OF x(3) _ l, of "out @ [x]"] Cons
    have "walk_forward n' h (Some y) (out @ [x]) = Inr ((out @ [x]) @ cs)" by simp
    with x n show ?thesis by simp
  qed
qed

lemma link_back_chain:
  assumes dec: "\<And>a p. a < length h \<Longrightarrow> prev (h ! a) = Some p \<Longrightarrow> p < a"
    and b: "b < length h" and linked: "linked h (b # done)"
    and above: "\<forall>x\<in>set done. b < x" and fuel: "b < n"
  shows "\<exists>h'. link_back n h b = Inr (h', last (parent_chain h b)) \<and>
     linked h' (rev (parent_chain h b) @ done) \<and> length h' = length h \<and>
     (\<forall>a. prev (h' ! a) = prev (h ! a) \<and> squares (h' ! a) = squares (h ! a))"
  using assms
proof (induction n arbitrary: h b "done")
  case 0
  then show ?case by simp
next
  case (Suc n)
  show ?case
  proof (cases "prev (h ! b)")
    case None
    with Suc.prems(2,3) show ?thesis by (simp add: parent_chain_None)
  next
    case (Some p)
    let ?h1 = "h[p := (h ! p)\<lparr>nextwin := Some b\<rparr>]"
    from Suc.prems(1) [OF Suc.prems(2) Some] have p: "p < b" .
    with Suc.prems(2) have pl: "p < length h" by simp
    have dec1: "\<And>a q. a < length ?h1 \<Longrightarrow> prev (?h1 ! a) = Some q \<Longrightarrow> q < a"
      using Suc.prems(1) by (simp add: set_nextwin)
    have notin: "p \<notin> set (b # done)" using p Suc.prems(4) by auto
    have "linked ?h1 (b # done)"
      using Suc.prems(3) by (simp only: linked_update [OF notin])
    moreover have "p < length ?h1" "nextwin (?h1 ! p) = Some b"
      using pl by (simp_all only: set_nextwin)
    ultimately have l1: "linked ?h1 (p # b # done)"
      by (simp only: linked.simps simp_thms)
    have ab: "\<forall>x\<in>set (b # done). p < x" using p Suc.prems(4) by auto
    have fu: "p < n" using p Suc.prems(5) by simp
    from Suc.IH [OF dec1 _ l1 ab fu] pl obtain h' where
      h': "link_back n ?h1 p = Inr (h', last (parent_chain ?h1 p))"
        "linked h' (rev (parent_chain ?h1 p) @ b # done)" "length h' = length ?h1"
        "\<forall>a. prev (h' ! a) = prev (?h1 ! a) \<and> squares (h' ! a) = squares (?h1 ! a)"
      by (auto simp add: set_nextwin)
    have pc1: "parent_chain ?h1 p = parent_chain h p"
      by (rule parent_chain_cong) (simp add: set_nextwin)
    have pc: "parent_chain h b = b # parent_chain h p"
      using Some p by (rule parent_chain_Some)
    have "link_back (Suc n) h b = Inr (h', last (parent_chain h b))"
      using Suc.prems(2) Some pl h'(1) by (simp add: pc pc1 parent_chain_hd)
    moreover have "linked h' (rev (parent_chain h b) @ done)"
      using h'(2) by (simp add: pc pc1)
    ultimately show ?thesis using h'(3,4) by (simp add: set_nextwin)
  qed
qed

subsection \<open>The store after a search from a root board\<close>

lemma search_tree_heap:
  assumes gen: "generate_boards d (init_state g0) 0 = Inr (s, r)" and wf: "wf_grid g0"
  shows "tree_heap (heap s)"
    and "0 < total_winning_boards s \<Longrightarrow>
      \<exists>w. winning_board s = Some w \<and> w < length (heap s) \<and> won (heap s) w"
proof -
  let ?s0 = "init_state g0"
  have rel: "search_rel [0] ?s0 s"
    using gen by (rule generate_boards_Inr) (simp_all add: init_state_simps wf)
  note R = search_relD [OF rel]
  have len: "1 \<le> length (heap s)"
    using R(1) by (simp add: frame_def init_state_simps)
  have "nextwin (heap s ! a) = None \<and>
      (case prev (heap s ! a) of None \<Rightarrow> a = 0 | Some p \<Rightarrow> p < a)"
    if a: "a < length (heap s)" for a
  proof (cases "a = 0")
    case True
    with R(1) show ?thesis
      by (simp add: frame_def init_state_simps)
  next
    case False
    with a R(2) [of a] have "child_ok (heap s) a" by (simp add: init_state_simps)
    then show ?thesis by (auto simp add: child_ok_def)
  qed
  then show "tree_heap (heap s)" by (simp add: tree_heap_def)
  show "\<exists>w. winning_board s = Some w \<and> w < length (heap s) \<and> won (heap s) w"
    if "0 < total_winning_boards s"
  proof -
    let ?vs = "visited [0] ?s0 s"
    from that R(6) have "filter (won (heap s)) ?vs \<noteq> []"
      by (auto simp add: init_state_simps)
    then obtain x where "x \<in> set ?vs" "won (heap s) x"
      by (auto simp add: filter_empty_conv)
    then obtain w where w: "find (won (heap s)) ?vs = Some w"
      by (cases "find (won (heap s)) ?vs") (auto simp add: find_None_iff)
    then have "won (heap s) w" "w \<in> set ?vs"
      by (auto simp add: find_Some_iff)
    moreover from this len have "w < length (heap s)"
      by (auto simp add: visited_def init_state_simps)
    moreover from w R(5) have "winning_board s = Some w" by (simp add: init_state_simps)
    ultimately show ?thesis by blast
  qed
qed

section \<open>The claims\<close>

text \<open>
  C10. For every board and every jump the search generates on it, the reverse jump (from
  the landing cell back over the jumped cell) is not generated on the resulting board:
  the jumped cell is empty there, so the test of line 221 is false.
\<close>

theorem reverse_jump_not_legal:
  assumes "wf_grid g" and "jump_legal g row col offnum"
  shows "\<exists>g'. jump_squares g row col offnum = Inr g' \<and>
     is_empty (sq g' (row + rowoffsets ! offnum) (col + coloffsets ! offnum)) \<and>
     jump_test g' (row + 2 * rowoffsets ! offnum) (col + 2 * coloffsets ! offnum)
        (opposite offnum) = Inr False \<and>
     \<not> jump_legal g' (row + 2 * rowoffsets ! offnum) (col + 2 * coloffsets ! offnum)
        (opposite offnum)"
proof -
  let ?ro = "rowoffsets ! offnum" and ?co = "coloffsets ! offnum"
  note L = jump_legalD [OF assms(2)]
  from assms obtain g' where g': "jump_squares g row col offnum = Inr g'"
    and cells: "\<And>r c. in_bounds r c \<Longrightarrow>
       sq g' r c =
         (if r = row + 2 * ?ro \<and> c = col + 2 * ?co then POS_FULL OR POS_LAST
          else if (r = row \<and> c = col) \<or> (r = row + ?ro \<and> c = col + ?co) then POS_EMPTY
          else sq g r c AND NOT POS_LAST)"
    by (rule jump_squares_legal) blast
  have co: "?co \<noteq> 0" using L(2) by (rule coloffsets_nonzero)
  have mid: "sq g' (row + ?ro) (col + ?co) = POS_EMPTY"
    using co by (simp add: cells [OF L(4)])
  note opp = opposite_offsets [OF L(2)]
  have adj: "row + 2 * ?ro + rowoffsets ! opposite offnum = row + ?ro"
    "col + 2 * ?co + coloffsets ! opposite offnum = col + ?co"
    using opp by simp_all
  have test: "jump_test g' (row + 2 * ?ro) (col + 2 * ?co) (opposite offnum) = Inr False"
    by (simp add: jump_test_eq adj mid L(4) is_full_simps)
  then have "\<not> jump_legal g' (row + 2 * ?ro) (col + 2 * ?co) (opposite offnum)"
    by (simp add: jump_legal_def)
  with g' mid test show ?thesis by (simp add: is_empty_def)
qed

theorem reverse_jump_not_legal_witness:
  "wf_grid initial_board_1 \<and> jump_legal initial_board_1 6 4 1 \<and>
   (\<exists>g'. jump_squares initial_board_1 6 4 1 = Inr g' \<and>
     is_empty (sq g' 5 5) \<and> jump_test g' 4 6 2 = Inr False \<and> \<not> jump_legal g' 4 6 2)"
  using reverse_jump_not_legal [OF wf_initial_board_1 legal_initial_6_4_1]
    wf_initial_board_1 legal_initial_6_4_1
  by (simp add: rowoffsets_def coloffsets_def opposite_def)

text \<open>
  C2. Every board the search allocates has a parent (its \<^verbatim>\<open>prev\<close> link, an older
  board), and it has exactly one peg less than its parent.
\<close>

theorem child_has_one_peg_less:
  fixes s :: state
  assumes "generate_boards d s b = Inr (s', r)" and "b < length (heap s)"
    and "wf_grid (squares (heap s ! b))"
    and "length (heap s) \<le> c" and "c < length (heap s')"
  shows "\<exists>p. prev (heap s' ! c) = Some p \<and> p < c \<and>
     count_pegs (squares (heap s' ! c)) = count_pegs (squares (heap s' ! p)) - 1"
proof -
  from assms(1-3) have "search_rel [b] s s'" by (rule generate_boards_Inr)
  then have "child_ok (heap s') c" using assms(4,5) by (rule search_relD)
  then show ?thesis by (rule child_ok_pegs) blast
qed

theorem child_has_one_peg_less_witness:
  "generate_boards 1 (init_state endgame_board) 0 = Inr (endgame_final, True) \<and>
   0 < length (heap (init_state endgame_board)) \<and>
   wf_grid (squares (heap (init_state endgame_board) ! 0)) \<and>
   length (heap (init_state endgame_board)) \<le> 1 \<and> 1 < length (heap endgame_final) \<and>
   (\<exists>p. prev (heap endgame_final ! 1) = Some p \<and> p < 1 \<and>
      count_pegs (squares (heap endgame_final ! 1)) =
        count_pegs (squares (heap endgame_final ! p)) - 1)"
proof -
  have h: "0 < length (heap (init_state endgame_board))"
    "wf_grid (squares (heap (init_state endgame_board) ! 0))"
    "length (heap (init_state endgame_board)) \<le> 1" "1 < length (heap endgame_final)"
    by (simp_all add: init_state_simps wf_endgame_board endgame_final_def)
  from child_has_one_peg_less [OF endgame_run h] endgame_run h show ?thesis by simp
qed

text \<open>
  C3. On every board reachable from a root board by jumps the search generates, every
  cell that is invalid in the root is invalid. This holds for any root board, so for
  each of the four starting layouts.
\<close>

theorem invalid_cells_stay_invalid:
  assumes "reachable_from g0 g" and "wf_grid g0" and "in_bounds r c"
    and "is_invalid (sq g0 r c)"
  shows "is_invalid (sq g r c)"
proof -
  from assms(1) have "wf_grid g \<and> is_invalid (sq g r c)"
  proof (induction rule: reachable_from.induct)
    case root
    from assms(2,4) show ?case by simp
  next
    case (jump g row col offnum g')
    then have wf: "wf_grid g" and inv: "sq g r c = POS_INVALID"
      by (simp_all add: is_invalid_def)
    note L = jump_legalD [OF jump.hyps(2)]
    from wf jump.hyps(2) obtain g'' where g'': "jump_squares g row col offnum = Inr g''"
      "wf_grid g''"
      and cells: "\<And>r c. in_bounds r c \<Longrightarrow>
          sq g'' r c =
            (if r = row + 2 * rowoffsets ! offnum \<and> c = col + 2 * coloffsets ! offnum
               then POS_FULL OR POS_LAST
             else if (r = row \<and> c = col) \<or>
                     (r = row + rowoffsets ! offnum \<and> c = col + coloffsets ! offnum)
               then POS_EMPTY
             else sq g r c AND NOT POS_LAST)"
      by (rule jump_squares_legal) blast
    from g''(1) jump.hyps(3) have eq: "g'' = g'" by simp
    have "sq g' r c = POS_INVALID"
      using L(3,5,7) inv
      by (auto simp add: eq [symmetric] cells [OF assms(3)] is_full_def POS_defs)
    with g''(2) eq show ?case by (simp add: is_invalid_def)
  qed
  then show ?thesis by simp
qed

theorem invalid_cells_stay_invalid_witness:
  "reachable_from initial_board_1 after_first_jump \<and> wf_grid initial_board_1 \<and>
   in_bounds 4 5 \<and> is_invalid (sq initial_board_1 4 5) \<and> is_invalid (sq after_first_jump 4 5)"
proof -
  have h: "in_bounds 4 5" "is_invalid (sq initial_board_1 4 5)"
    by (simp_all add: in_bounds_def NUM_ROWS_def NUM_COLS_def is_invalid_def sq_def
        initial_board_1_def)
  from invalid_cells_stay_invalid [OF reachable_after_first_jump wf_initial_board_1 h]
    reachable_after_first_jump wf_initial_board_1 h
  show ?thesis by simp
qed

text \<open>
  C1. A finished call of the search on a board reachable from \<^verbatim>\<open>initial_board_1\<close> has
  made one child for each jump of \<open>jumps_of\<close>, in the order of the three loops, and no
  other: the \<open>k\<close>-th entry of \<^verbatim>\<open>next\<close> is a board allocated by the call, with the
  board as \<^verbatim>\<open>prev\<close> and with the squares after the \<open>k\<close>-th jump, the entries after
  the last child are as they were, every board allocated by the call with the board as
  \<^verbatim>\<open>prev\<close> is one of these children, and the call returns \<^verbatim>\<open>TRUE\<close> exactly when
  there is a jump. A jump \<open>(row, col, offnum)\<close> is among them exactly when the cell
  \<open>(row, col)\<close> holds a peg, the adjacent cell is occupied and the landing cell is empty,
  and then neither of the two is invalid.
\<close>

theorem jump_generated_iff:
  fixes s :: state
  assumes "reachable_from initial_board_1 g"
    and "generate_boards d s b = Inr (s', r)" and "squares (heap s ! b) = g"
    and "length (nextb (heap s ! b)) = MAX_BOARDS"
  shows "length (jumps_of g) \<le> MAX_BOARDS \<and> r = (jumps_of g \<noteq> []) \<and>
     (\<forall>k<length (jumps_of g). nth_child (heap s) (heap s') b k (jumps_of g ! k)) \<and>
     (\<forall>k. length (jumps_of g) \<le> k \<and> k < MAX_BOARDS \<longrightarrow>
        nextb (heap s' ! b) ! k = nextb (heap s ! b) ! k) \<and>
     (\<forall>c. length (heap s) \<le> c \<and> c < length (heap s') \<and> prev (heap s' ! c) = Some b \<longrightarrow>
        (\<exists>k<length (jumps_of g). nextb (heap s' ! b) ! k = Some c)) \<and>
     (\<forall>row col offnum.
        (row, col, offnum) \<in> set (jumps_of g) \<longleftrightarrow>
          in_bounds row col \<and> offnum < NUM_OFFSETS \<and> is_full (sq g row col) \<and>
          is_full (sq g (row + rowoffsets ! offnum) (col + coloffsets ! offnum)) \<and>
          is_empty (sq g (row + 2 * rowoffsets ! offnum) (col + 2 * coloffsets ! offnum)) \<and>
          \<not> is_invalid (sq g (row + rowoffsets ! offnum) (col + coloffsets ! offnum)) \<and>
          \<not> is_invalid (sq g (row + 2 * rowoffsets ! offnum) (col + 2 * coloffsets ! offnum)))"
proof -
  from assms(1) have tri: "tri_board g" by (rule reachable_tri_board)
  note I = generate_boards_kids [OF assms(2), unfolded assms(3)]
  from I(1) assms(4) have n: "length (jumps_of g) \<le> MAX_BOARDS"
    and kids: "\<forall>k<length (jumps_of g). nth_child (heap s) (heap s') b k (jumps_of g ! k)"
    and rest: "\<forall>k. length (jumps_of g) \<le> k \<and> k < MAX_BOARDS \<longrightarrow>
        nextb (heap s' ! b) ! k = nextb (heap s ! b) ! k"
    and only: "\<forall>c. length (heap s) \<le> c \<and> c < length (heap s') \<and>
        prev (heap s' ! c) = Some b \<longrightarrow>
        (\<exists>k<length (jumps_of g). nextb (heap s' ! b) ! k = Some c)"
    by (simp_all add: kids_inv_def)
  from n I(2) kids rest only show ?thesis
    by (simp only: set_jumps_of tri_jump_legal_iff [OF tri] simp_thms)
qed

theorem jump_generated_iff_witness:
  "reachable_from initial_board_1 late_board \<and>
   squares (heap (init_state late_board) ! 0) = late_board \<and>
   length (nextb (heap (init_state late_board) ! 0)) = MAX_BOARDS \<and>
   jumps_of late_board = [(4, 8, 2), (6, 8, 0)] \<and>
   (\<exists>s' r. generate_boards 3 (init_state late_board) 0 = Inr (s', r) \<and> r \<and>
      take 3 (nextb (heap s' ! 0)) = [Some 1, Some 5, None] \<and>
      nth_child (heap (init_state late_board)) (heap s') 0 0 (4, 8, 2) \<and>
      nth_child (heap (init_state late_board)) (heap s') 0 1 (6, 8, 0)) \<and>
   is_full (sq late_board 4 8) \<and> is_full (sq late_board 5 7) \<and> is_empty (sq late_board 6 6) \<and>
   (6, 8, 4) \<notin> set (jumps_of late_board) \<and> is_full (sq late_board 6 8) \<and>
   \<not> is_full (sq late_board 6 6)"
proof -
  from late_children obtain s' r
    where run: "generate_boards 3 (init_state late_board) 0 = Inr (s', r)"
      and nb: "take 3 (nextb (heap s' ! 0)) = [Some 1, Some 5, None]"
    by (cases "generate_boards 3 (init_state late_board) 0") auto
  have sq0: "squares (heap (init_state late_board) ! 0) = late_board"
    and len: "length (nextb (heap (init_state late_board) ! 0)) = MAX_BOARDS"
    by (simp_all add: init_state_def root_board_def)
  note j = jump_generated_iff [OF reachable_late run sq0 len]
  from j have r: r by (simp add: late_jumps)
  note kids = j [THEN conjunct2, THEN conjunct2, THEN conjunct1, rule_format]
  from kids [of 0] have k0: "nth_child (heap (init_state late_board)) (heap s') 0 0 (4, 8, 2)"
    by (simp add: late_jumps)
  from kids [of 1] have k1: "nth_child (heap (init_state late_board)) (heap s') 0 1 (6, 8, 0)"
    by (simp add: late_jumps)
  have cells: "is_full (sq late_board 4 8) \<and> is_full (sq late_board 5 7) \<and>
      is_empty (sq late_board 6 6) \<and> (6, 8, 4) \<notin> set (jumps_of late_board) \<and>
      is_full (sq late_board 6 8) \<and> \<not> is_full (sq late_board 6 6)"
    by code_simp
  from reachable_late sq0 len late_jumps run r nb k0 k1 cells show ?thesis by blast
qed

text \<open>
  C7. On every board reachable from \<^verbatim>\<open>initial_board_1\<close> the search never reads or
  writes outside the 9 by 13 array: for a cell with a peg the adjacent cell is inside the
  array, the landing cell is inside when the adjacent cell holds a peg (the only case in
  which it is read), the three assignments of a generated jump are inside, and the whole
  search from the board, to any depth, never ends with an access outside the array.
\<close>

theorem grid_accesses_in_bounds:
  assumes "reachable_from initial_board_1 g"
  shows "(\<forall>row col offnum.
            in_bounds row col \<and> is_full (sq g row col) \<and> offnum < NUM_OFFSETS \<longrightarrow>
              in_bounds (row + rowoffsets ! offnum) (col + coloffsets ! offnum) \<and>
              (is_full (sq g (row + rowoffsets ! offnum) (col + coloffsets ! offnum)) \<longrightarrow>
                 in_bounds (row + 2 * rowoffsets ! offnum) (col + 2 * coloffsets ! offnum)) \<and>
              jump_test g row col offnum \<noteq> Inl OutOfBounds \<and>
              (jump_test g row col offnum = Inr True \<longrightarrow>
                 (\<exists>g'. jump_squares g row col offnum = Inr g'))) \<and>
         (\<forall>(s :: state) b d.
            b < length (heap s) \<and> squares (heap s ! b) = g \<longrightarrow>
              generate_boards d s b \<noteq> Inl OutOfBounds)"
proof (intro conjI allI impI)
  from assms have tri: "tri_board g" by (rule reachable_tri_board)
  then have wf: "wf_grid g" by (rule tri_board_wf)
  fix row col offnum
  assume a: "in_bounds row col \<and> is_full (sq g row col) \<and> offnum < NUM_OFFSETS"
  let ?ro = "rowoffsets ! offnum" and ?co = "coloffsets ! offnum"
  from a have rc: "in_bounds row col" and full: "is_full (sq g row col)"
    and off: "offnum < NUM_OFFSETS" by simp_all
  have t: "jump_test g row col offnum = Inr (jump_test g row col offnum = Inr True)"
    using tri rc full off by (rule tri_board_jump_test)
  then show mid: "in_bounds (row + ?ro) (col + ?co)"
    by (auto simp add: jump_test_eq split: if_splits)
  show "in_bounds (row + 2 * ?ro) (col + 2 * ?co)" if "is_full (sq g (row + ?ro) (col + ?co))"
    using t that mid by (auto simp add: jump_test_eq split: if_splits)
  from t show "jump_test g row col offnum \<noteq> Inl OutOfBounds" by auto
  show "\<exists>g'. jump_squares g row col offnum = Inr g'" if "jump_test g row col offnum = Inr True"
  proof -
    from rc off full that have "jump_legal g row col offnum" by (simp add: jump_legal_def)
    with wf show ?thesis by (rule jump_squares_legal) blast
  qed
next
  from assms have tri: "tri_board g" by (rule reachable_tri_board)
  fix s :: state and b d
  assume a: "b < length (heap s) \<and> squares (heap s ! b) = g"
  with tri have "wf_grid (squares (heap s ! b))" by (simp add: tri_board_wf)
  with a have "outcome (generate_boards d s b)
     (\<lambda>(s', r). search_rel [b] s s' \<and> r = (count_jumps (squares (heap s ! b)) \<noteq> 0))
     (bad (Suc d) (squares (heap s ! b)))"
    by (intro generate_boards_spec) simp_all
  with a tri show "generate_boards d s b \<noteq> Inl OutOfBounds"
    by (auto simp add: bad_def)
qed

theorem grid_accesses_in_bounds_witness:
  "reachable_from initial_board_1 after_first_jump \<and>
   in_bounds 5 9 \<and> is_full (sq after_first_jump 5 9) \<and> (4::nat) < NUM_OFFSETS \<and>
   in_bounds (5 + rowoffsets ! 4) (9 + coloffsets ! 4) \<and>
   is_full (sq after_first_jump (5 + rowoffsets ! 4) (9 + coloffsets ! 4)) \<and>
   in_bounds (5 + 2 * rowoffsets ! 4) (9 + 2 * coloffsets ! 4) \<and>
   jump_test after_first_jump 5 9 4 = Inr True \<and>
   (\<exists>g'. jump_squares after_first_jump 5 9 4 = Inr g') \<and>
   0 < length (heap (init_state after_first_jump)) \<and>
   squares (heap (init_state after_first_jump) ! 0) = after_first_jump \<and>
   generate_boards 0 (init_state after_first_jump) 0 \<noteq> Inl OutOfBounds"
proof -
  note T = grid_accesses_in_bounds [OF reachable_after_first_jump]
  have h: "in_bounds 5 9" "is_full (sq after_first_jump 5 9)" "(4::nat) < NUM_OFFSETS"
    "is_full (sq after_first_jump (5 + rowoffsets ! 4) (9 + coloffsets ! 4))"
    "jump_test after_first_jump 5 9 4 = Inr True"
    by code_simp+
  have s: "0 < length (heap (init_state after_first_jump))"
    "squares (heap (init_state after_first_jump) ! 0) = after_first_jump"
    by (simp_all add: init_state_simps)
  from T [THEN conjunct1, rule_format, of 5 9 4] h
  have 1: "in_bounds (5 + rowoffsets ! 4) (9 + coloffsets ! 4)"
    "in_bounds (5 + 2 * rowoffsets ! 4) (9 + 2 * coloffsets ! 4)"
    "\<exists>g'. jump_squares after_first_jump 5 9 4 = Inr g'"
    by blast+
  from T [THEN conjunct2, rule_format, of 0 "init_state after_first_jump" 0] s
  have 2: "generate_boards 0 (init_state after_first_jump) 0 \<noteq> Inl OutOfBounds"
    by blast
  from reachable_after_first_jump h s 1 2 show ?thesis by blast
qed

text \<open>
  C8. On every board reachable from \<^verbatim>\<open>initial_board_1\<close> the three loops find at most
  \<^verbatim>\<open>MAX_BOARDS\<close> jumps; \<^verbatim>\<open>new_board_num\<close> is this number when the loops end, and
  the search from the board, to any depth, never writes past the end of \<^verbatim>\<open>next\<close>.
\<close>

theorem child_array_never_overflows:
  assumes "reachable_from initial_board_1 g"
  shows "count_jumps g \<le> MAX_BOARDS \<and>
         (\<forall>(s :: state) b d.
            b < length (heap s) \<and> squares (heap s ! b) = g \<longrightarrow>
              generate_boards d s b \<noteq> Inl ChildOverflow \<and>
              (\<forall>s' n. for_loop rows (row_body (generate_boards d) b) (enter_board s b, 0) =
                        Inr (s', n) \<longrightarrow> n = count_jumps g))"
proof (intro conjI allI impI)
  from assms have tri: "tri_board g" by (rule reachable_tri_board)
  then show "count_jumps g \<le> MAX_BOARDS" by (rule tri_count_jumps_le)
  fix s :: state and b d
  assume a: "b < length (heap s) \<and> squares (heap s ! b) = g"
  with tri have wf: "wf_grid (squares (heap s ! b))" by (simp add: tri_board_wf)
  with a have "outcome (generate_boards d s b)
     (\<lambda>(s', r). search_rel [b] s s' \<and> r = (count_jumps (squares (heap s ! b)) \<noteq> 0))
     (bad (Suc d) (squares (heap s ! b)))"
    by (intro generate_boards_spec) simp_all
  with a tri show "generate_boards d s b \<noteq> Inl ChildOverflow"
    by (auto simp add: bad_def)
  fix s' n
  assume run: "for_loop rows (row_body (generate_boards d) b) (enter_board s b, 0) = Inr (s', n)"
  have inv: "loop_inv (enter_board s b) b g (enter_board s b)"
    using a wf by (simp add: loop_inv_def enter_board_heap search_rel_refl)
  have "search_spec (Suc d) (generate_boards d)" by (rule search_spec_generate_boards)
  then have "outcome (for_loop rows (row_body (generate_boards d) b) (enter_board s b, 0))
     (\<lambda>(s', m'). loop_inv (enter_board s b) b g s' \<and> m' = count_jumps g) (bad (Suc (Suc d)) g)"
    using inv by (rule rows_inv)
  with run show "n = count_jumps g" by simp
qed

theorem child_array_never_overflows_witness:
  "reachable_from initial_board_1 endgame_board \<and>
   count_jumps endgame_board \<le> MAX_BOARDS \<and>
   0 < length (heap (init_state endgame_board)) \<and>
   squares (heap (init_state endgame_board) ! 0) = endgame_board \<and>
   generate_boards 1 (init_state endgame_board) 0 \<noteq> Inl ChildOverflow \<and>
   for_loop rows (row_body (generate_boards 0) 0) (enter_board (init_state endgame_board) 0, 0) =
     Inr (endgame_final\<lparr>depth := 1\<rparr>, 1) \<and>
   1 = count_jumps endgame_board"
proof -
  note T = child_array_never_overflows [OF reachable_endgame]
  have s: "0 < length (heap (init_state endgame_board))"
    "squares (heap (init_state endgame_board) ! 0) = endgame_board"
    by (simp_all add: init_state_simps)
  have run: "for_loop rows (row_body (generate_boards 0) 0)
      (enter_board (init_state endgame_board) 0, 0) = Inr (endgame_final\<lparr>depth := 1\<rparr>, 1)"
    by code_simp
  from T [THEN conjunct2, rule_format, of 0 "init_state endgame_board" 1] s
  have 1: "generate_boards 1 (init_state endgame_board) 0 \<noteq> Inl ChildOverflow" by blast
  from T [THEN conjunct2, rule_format, of 0 "init_state endgame_board" 0] s
  have "\<forall>s' n. for_loop rows (row_body (generate_boards 0) 0)
      (enter_board (init_state endgame_board) 0, 0) = Inr (s', n) \<longrightarrow>
        n = count_jumps endgame_board" by blast
  with run have 2: "1 = count_jumps endgame_board" by blast
  from reachable_endgame T [THEN conjunct1] s 1 run 2 show ?thesis by blast
qed

text \<open>
  C9. The search ends on every board: a call on a board with at most \<open>d + 1\<close> pegs never
  goes more than \<open>d\<close> calls deep, so the depth below a board with \<open>p\<close> pegs is at most
  \<open>p - 1\<close>. Every board allocated has fewer pegs than its parent. On a board of the
  triangle the call returns.
\<close>

theorem search_terminates:
  fixes s :: state
  assumes "b < length (heap s)" and "wf_grid (squares (heap s ! b))"
    and "count_pegs (squares (heap s ! b)) \<le> 1 + int d"
  shows "generate_boards d s b \<noteq> Inl DepthExceeded \<and>
         (tri_board (squares (heap s ! b)) \<longrightarrow> (\<exists>s' r. generate_boards d s b = Inr (s', r))) \<and>
         (\<forall>s' r c. generate_boards d s b = Inr (s', r) \<and> length (heap s) \<le> c \<and>
            c < length (heap s') \<longrightarrow>
              (\<exists>p. prev (heap s' ! c) = Some p \<and>
                 count_pegs (squares (heap s' ! c)) < count_pegs (squares (heap s' ! p))))"
proof (intro conjI allI impI)
  let ?g = "squares (heap s ! b)"
  have o: "outcome (generate_boards d s b)
     (\<lambda>(s', r). search_rel [b] s s' \<and> r = (count_jumps ?g \<noteq> 0)) (bad (Suc d) ?g)"
    using assms(1,2) by (rule generate_boards_spec)
  with assms(3) show "generate_boards d s b \<noteq> Inl DepthExceeded"
    by (auto simp add: bad_def)
  show "\<exists>s' r. generate_boards d s b = Inr (s', r)" if "tri_board ?g"
  proof (cases "generate_boards d s b")
    case (Inl e)
    with o that assms(3) show ?thesis by (simp add: bad_def)
  next
    case (Inr x)
    then show ?thesis by (cases x) simp
  qed
  fix s' r c
  assume a: "generate_boards d s b = Inr (s', r) \<and> length (heap s) \<le> c \<and>
    c < length (heap s')"
  then have gen: "generate_boards d s b = Inr (s', r)" and c: "length (heap s) \<le> c"
    "c < length (heap s')" by simp_all
  from gen assms(1,2) have "search_rel [b] s s'" by (rule generate_boards_Inr)
  then have "child_ok (heap s') c" using c by (rule search_relD)
  then show "\<exists>p. prev (heap s' ! c) = Some p \<and>
      count_pegs (squares (heap s' ! c)) < count_pegs (squares (heap s' ! p))"
    by (rule child_ok_pegs) auto
qed

theorem search_terminates_witness:
  "0 < length (heap (init_state endgame_board)) \<and>
   wf_grid (squares (heap (init_state endgame_board) ! 0)) \<and>
   count_pegs (squares (heap (init_state endgame_board) ! 0)) \<le> 1 + int 1 \<and>
   generate_boards 1 (init_state endgame_board) 0 \<noteq> Inl DepthExceeded \<and>
   tri_board (squares (heap (init_state endgame_board) ! 0)) \<and>
   generate_boards 1 (init_state endgame_board) 0 = Inr (endgame_final, True) \<and>
   length (heap (init_state endgame_board)) \<le> 1 \<and> 1 < length (heap endgame_final) \<and>
   (\<exists>p. prev (heap endgame_final ! 1) = Some p \<and>
      count_pegs (squares (heap endgame_final ! 1)) <
        count_pegs (squares (heap endgame_final ! p)))"
proof -
  have h: "0 < length (heap (init_state endgame_board))"
    "wf_grid (squares (heap (init_state endgame_board) ! 0))"
    "count_pegs (squares (heap (init_state endgame_board) ! 0)) \<le> 1 + int 1"
    by (simp_all add: init_state_simps wf_endgame_board) code_simp
  have t: "tri_board (squares (heap (init_state endgame_board) ! 0))"
    by (simp add: init_state_simps tri_endgame_board)
  have l: "length (heap (init_state endgame_board)) \<le> 1" "1 < length (heap endgame_final)"
    by (simp_all add: init_state_simps endgame_final_def)
  note T = search_terminates [OF h]
  from T have 1: "generate_boards 1 (init_state endgame_board) 0 \<noteq> Inl DepthExceeded"
    by blast
  from T [THEN conjunct2, THEN conjunct2, rule_format, of endgame_final True 1] endgame_run l
  have 2: "\<exists>p. prev (heap endgame_final ! 1) = Some p \<and>
      count_pegs (squares (heap endgame_final ! 1)) <
        count_pegs (squares (heap endgame_final ! p))" by blast
  from h t l 1 2 endgame_run show ?thesis by blast
qed

text \<open>
  C4. A finished search has left the squares of every board that existed before as they
  were. Every board it has allocated is the result of one jump the search generates on
  its parent: the landing cell holds a peg with the marker, the source and the jumped
  cell are empty, every other cell is the parent's cell without the marker, and exactly
  one cell carries the marker. The root boards of \<^verbatim>\<open>main\<close> carry no marker.
\<close>

theorem jump_makes_new_board:
  fixes s :: state
  assumes "generate_boards d s b = Inr (s', r)" and "b < length (heap s)"
    and "wf_grid (squares (heap s ! b))"
  shows "(\<forall>a<length (heap s). squares (heap s' ! a) = squares (heap s ! a)) \<and>
     (\<forall>c. length (heap s) \<le> c \<and> c < length (heap s') \<longrightarrow>
        (\<exists>p row col offnum.
           prev (heap s' ! c) = Some p \<and> p < c \<and>
           jump_legal (squares (heap s' ! p)) row col offnum \<and>
           jump_squares (squares (heap s' ! p)) row col offnum = Inr (squares (heap s' ! c)) \<and>
           count_last (squares (heap s' ! c)) = 1 \<and>
           (\<forall>r' c'. in_bounds r' c' \<longrightarrow>
              sq (squares (heap s' ! c)) r' c' =
                (if r' = row + 2 * rowoffsets ! offnum \<and> c' = col + 2 * coloffsets ! offnum
                   then POS_FULL OR POS_LAST
                 else if (r' = row \<and> c' = col) \<or>
                         (r' = row + rowoffsets ! offnum \<and> c' = col + coloffsets ! offnum)
                   then POS_EMPTY
                 else sq (squares (heap s' ! p)) r' c' AND NOT POS_LAST)))) \<and>
     count_last initial_board_1 = 0 \<and> count_last initial_board_2 = 0 \<and>
     count_last initial_board_3 = 0 \<and> count_last initial_board_4 = 0"
proof (intro conjI allI impI)
  from assms have rel: "search_rel [b] s s'" by (rule generate_boards_Inr)
  then have fr: "frame (heap s) (heap s')" by (rule search_relD)
  show "squares (heap s' ! a) = squares (heap s ! a)" if "a < length (heap s)" for a
    using fr that by (rule frame_squares)
  show "count_last initial_board_1 = 0" "count_last initial_board_2 = 0"
    "count_last initial_board_3 = 0" "count_last initial_board_4 = 0"
    by code_simp+
  fix c
  assume "length (heap s) \<le> c \<and> c < length (heap s')"
  then have c: "length (heap s) \<le> c" "c < length (heap s')" by simp_all
  from rel c have "child_ok (heap s') c" by (rule search_relD)
  then obtain p row col offnum where
    p: "prev (heap s' ! c) = Some p" "p < c" "wf_grid (squares (heap s' ! p))"
      "jump_legal (squares (heap s' ! p)) row col offnum"
      "jump_squares (squares (heap s' ! p)) row col offnum = Inr (squares (heap s' ! c))"
    unfolding child_ok_def by blast
  from p(3,4) obtain g' where g': "jump_squares (squares (heap s' ! p)) row col offnum = Inr g'"
    and cells: "\<And>r c. in_bounds r c \<Longrightarrow>
          sq g' r c =
            (if r = row + 2 * rowoffsets ! offnum \<and> c = col + 2 * coloffsets ! offnum
               then POS_FULL OR POS_LAST
             else if (r = row \<and> c = col) \<or>
                     (r = row + rowoffsets ! offnum \<and> c = col + coloffsets ! offnum)
               then POS_EMPTY
             else sq (squares (heap s' ! p)) r c AND NOT POS_LAST)"
    and last: "count_last g' = 1"
    by (rule jump_squares_legal) blast
  from g' p(5) have eq: "g' = squares (heap s' ! c)" by simp
  show "\<exists>p row col offnum.
           prev (heap s' ! c) = Some p \<and> p < c \<and>
           jump_legal (squares (heap s' ! p)) row col offnum \<and>
           jump_squares (squares (heap s' ! p)) row col offnum = Inr (squares (heap s' ! c)) \<and>
           count_last (squares (heap s' ! c)) = 1 \<and>
           (\<forall>r' c'. in_bounds r' c' \<longrightarrow>
              sq (squares (heap s' ! c)) r' c' =
                (if r' = row + 2 * rowoffsets ! offnum \<and> c' = col + 2 * coloffsets ! offnum
                   then POS_FULL OR POS_LAST
                 else if (r' = row \<and> c' = col) \<or>
                         (r' = row + rowoffsets ! offnum \<and> c' = col + coloffsets ! offnum)
                   then POS_EMPTY
                 else sq (squares (heap s' ! p)) r' c' AND NOT POS_LAST))"
  proof (rule exI [of _ p], rule exI [of _ row], rule exI [of _ col], rule exI [of _ offnum],
      intro conjI allI impI)
    show "prev (heap s' ! c) = Some p" "p < c"
      "jump_legal (squares (heap s' ! p)) row col offnum"
      "jump_squares (squares (heap s' ! p)) row col offnum = Inr (squares (heap s' ! c))"
      by (rule p)+
    show "count_last (squares (heap s' ! c)) = 1"
      using last by (simp only: eq)
    show "sq (squares (heap s' ! c)) r' c' =
        (if r' = row + 2 * rowoffsets ! offnum \<and> c' = col + 2 * coloffsets ! offnum
           then POS_FULL OR POS_LAST
         else if (r' = row \<and> c' = col) \<or>
                 (r' = row + rowoffsets ! offnum \<and> c' = col + coloffsets ! offnum)
           then POS_EMPTY
         else sq (squares (heap s' ! p)) r' c' AND NOT POS_LAST)" if "in_bounds r' c'" for r' c'
      using cells [OF that] by (simp only: eq)
  qed
qed

theorem jump_makes_new_board_witness:
  "generate_boards 1 (init_state endgame_board) 0 = Inr (endgame_final, True) \<and>
   0 < length (heap (init_state endgame_board)) \<and>
   wf_grid (squares (heap (init_state endgame_board) ! 0)) \<and>
   squares (heap endgame_final ! 0) = squares (heap (init_state endgame_board) ! 0) \<and>
   length (heap (init_state endgame_board)) \<le> 1 \<and> 1 < length (heap endgame_final) \<and>
   (\<exists>p row col offnum.
      prev (heap endgame_final ! 1) = Some p \<and> p < 1 \<and>
      jump_legal (squares (heap endgame_final ! p)) row col offnum \<and>
      jump_squares (squares (heap endgame_final ! p)) row col offnum =
        Inr (squares (heap endgame_final ! 1)) \<and>
      count_last (squares (heap endgame_final ! 1)) = 1) \<and>
   count_last initial_board_1 = 0"
proof -
  have h: "0 < length (heap (init_state endgame_board))"
    "wf_grid (squares (heap (init_state endgame_board) ! 0))"
    by (simp_all add: init_state_simps wf_endgame_board)
  have l: "length (heap (init_state endgame_board)) \<le> 1" "1 < length (heap endgame_final)"
    by (simp_all add: init_state_simps endgame_final_def)
  note T = jump_makes_new_board [OF endgame_run h]
  from T h have 1: "squares (heap endgame_final ! 0) =
      squares (heap (init_state endgame_board) ! 0)" by blast
  from T [THEN conjunct2, THEN conjunct1, rule_format, of 1] l
  have 2: "\<exists>p row col offnum.
      prev (heap endgame_final ! 1) = Some p \<and> p < 1 \<and>
      jump_legal (squares (heap endgame_final ! p)) row col offnum \<and>
      jump_squares (squares (heap endgame_final ! p)) row col offnum =
        Inr (squares (heap endgame_final ! 1)) \<and>
      count_last (squares (heap endgame_final ! 1)) = 1" by blast
  from T have 3: "count_last initial_board_1 = 0" by blast
  from endgame_run h l 1 2 3 show ?thesis by blast
qed



text \<open>
  C6. After a search from a root board that found a win, the two loops of \<^verbatim>\<open>main\<close>
  end and print exactly the reverse of the chain of \<^verbatim>\<open>prev\<close> links from the winning
  board: the list starts with the root, ends with the winning board, each board in it is
  the parent of the next, and the \<^verbatim>\<open>nextwin\<close> links set by the first loop lead along
  it. The loops change no squares and no \<^verbatim>\<open>prev\<close> link.
\<close>

theorem path_reconstruction:
  assumes "generate_boards d (init_state g0) 0 = Inr (s, r)" and "wf_grid g0"
    and "0 < total_winning_boards s" and "length (heap s) < n"
  shows "\<exists>w h'. winning_board s = Some w \<and> won (heap s) w \<and>
     print_path n s = Inr (h', rev (parent_chain (heap s) w)) \<and>
     hd (rev (parent_chain (heap s) w)) = 0 \<and>
     last (rev (parent_chain (heap s) w)) = w \<and>
     parent_path (heap s) (rev (parent_chain (heap s) w)) \<and>
     linked h' (rev (parent_chain (heap s) w)) \<and>
     (\<forall>a. prev (h' ! a) = prev (heap s ! a) \<and> squares (h' ! a) = squares (heap s ! a)) \<and>
     (g0 = initial_board_1 \<longrightarrow>
        main d n = Inr (total_boards s, rev (parent_chain (heap s) w)))"
proof -
  let ?h = "heap s"
  from assms(1,2) have tree: "tree_heap ?h" by (rule search_tree_heap)
  from assms(1,2,3) obtain w where w: "winning_board s = Some w" "w < length ?h" "won ?h w"
    using search_tree_heap(2) by blast
  let ?pc = "parent_chain ?h w"
  have dec: "\<And>a p. a < length ?h \<Longrightarrow> prev (?h ! a) = Some p \<Longrightarrow> p < a"
    using tree by (rule tree_heapD)
  have l0: "linked ?h [w]" using tree w(2) by (simp add: tree_heapD)
  have fuel: "w < n" using w(2) assms(4) by simp
  from link_back_chain [OF dec w(2) l0 _ fuel] obtain h' where
    h': "link_back n ?h w = Inr (h', last ?pc)" "linked h' (rev ?pc)"
      "\<forall>a. prev (h' ! a) = prev (?h ! a) \<and> squares (h' ! a) = squares (?h ! a)"
    by auto
  have ne: "rev ?pc \<noteq> []" by (simp add: parent_chain_hd)
  have "length ?pc \<le> Suc w" by (rule parent_chain_length)
  with w(2) assms(4) have len: "length (rev ?pc) < n" by simp
  from walk_forward_linked [OF h'(2) ne len, of "[]"]
  have walk: "walk_forward n h' (Some (last ?pc)) [] = Inr (rev ?pc)"
    by (simp add: hd_rev)
  have pp: "print_path n s = Inr (h', rev ?pc)"
    using assms(3) by (simp add: print_path_def w(1) h'(1) walk bind_res_def)
  from tree w(2) have tp: "parent_path ?h (rev ?pc)" "last ?pc = 0"
    using tree_parent_chain by blast+
  have ends: "hd (rev ?pc) = 0" "last (rev ?pc) = w"
    using tp(2) by (simp_all add: hd_rev last_rev parent_chain_hd)
  have "main d n = Inr (total_boards s, rev ?pc)" if "g0 = initial_board_1"
    using assms(1) that by (simp add: main_def pp bind_res_def)
  with w(1,3) pp ends tp(1) h'(2,3) show ?thesis by blast
qed

theorem path_reconstruction_witness:
  "generate_boards 1 (init_state endgame_board) 0 = Inr (endgame_final, True) \<and>
   wf_grid endgame_board \<and> 0 < total_winning_boards endgame_final \<and>
   length (heap endgame_final) < 3 \<and>
   (\<exists>w h'. winning_board endgame_final = Some w \<and> won (heap endgame_final) w \<and>
      print_path 3 endgame_final = Inr (h', rev (parent_chain (heap endgame_final) w)) \<and>
      hd (rev (parent_chain (heap endgame_final) w)) = 0 \<and>
      last (rev (parent_chain (heap endgame_final) w)) = w \<and>
      parent_path (heap endgame_final) (rev (parent_chain (heap endgame_final) w)) \<and>
      linked h' (rev (parent_chain (heap endgame_final) w))) \<and>
   map_sum id snd (print_path 3 endgame_final) = Inr [0, 1]"
proof -
  have h: "0 < total_winning_boards endgame_final" "length (heap endgame_final) < 3"
    by (simp_all add: endgame_final_def)
  have out: "map_sum id snd (print_path 3 endgame_final) = Inr [0, 1]"
    by code_simp
  from path_reconstruction [OF endgame_run wf_endgame_board h]
  have "\<exists>w h'. winning_board endgame_final = Some w \<and> won (heap endgame_final) w \<and>
      print_path 3 endgame_final = Inr (h', rev (parent_chain (heap endgame_final) w)) \<and>
      hd (rev (parent_chain (heap endgame_final) w)) = 0 \<and>
      last (rev (parent_chain (heap endgame_final) w)) = w \<and>
      parent_path (heap endgame_final) (rev (parent_chain (heap endgame_final) w)) \<and>
      linked h' (rev (parent_chain (heap endgame_final) w))"
    by blast
  with endgame_run wf_endgame_board h out show ?thesis by blast
qed

end
